theory Spec2Isabelle
  imports Main "HOL-Library.Sublist"
begin

section \<open>Values exchanged with the child process\<close>

text \<open>
  The harness is Python. What \<open>json.loads\<close> returns is a Python value built from
  \<open>None\<close>, booleans, integers, floats, strings, lists and dictionaries. A string is kept
  as the list of the bytes of its UTF-8 encoding; a dictionary as an association list in
  insertion order with distinct keys, read with \<open>map_of\<close>. A float is needed only for
  its truth value and its type, so it is kept as a mantissa and a binary exponent, or one
  of the special values: negative zero, and the three that \<open>json.loads\<close> accepts by name.
\<close>

datatype pyfloat = Finite int int | NegZero | PosInf | NegInf | NaN

datatype json =
    JNull
  | JBool bool
  | JInt int
  | JFloat pyfloat
  | JStr string
  | JArr "json list"
  | JObj "(string \<times> json) list"

text \<open>The exceptions the scripts can raise, and the result of an expression that may raise.\<close>

datatype py_error =
    AssertionError
  | TypeError
  | KeyError
  | AttributeError
  | UnicodeDecodeError
  | BrokenPipeError
  | ValueError
  | SystemExit int

datatype 'a res = Raise py_error | Ok 'a

fun bind_res :: "'a res \<Rightarrow> ('a \<Rightarrow> 'b res) \<Rightarrow> 'b res" where
  "bind_res (Raise e) f = Raise e"
| "bind_res (Ok x) f = f x"

subsection \<open>The Python operators the scripts apply to a decoded response\<close>

text \<open>Truth value of a Python object (\<open>bool(v)\<close>), as \<open>and\<close>, \<open>or\<close> and \<open>assert\<close> use it.\<close>

fun truthy :: "json \<Rightarrow> bool" where
  "truthy JNull = False"
| "truthy (JBool b) = b"
| "truthy (JInt i) = (i \<noteq> 0)"
| "truthy (JFloat f) = (case f of Finite m e \<Rightarrow> m \<noteq> 0 | NegZero \<Rightarrow> False | _ \<Rightarrow> True)"
| "truthy (JStr s) = (s \<noteq> [])"
| "truthy (JArr xs) = (xs \<noteq> [])"
| "truthy (JObj kvs) = (kvs \<noteq> [])"

text \<open>
  \<open>k in v\<close> for a string \<open>k\<close>: key membership in a dictionary, element membership in a
  list, substring test in a string, \<open>TypeError\<close> on anything else.
\<close>

fun py_in :: "string \<Rightarrow> json \<Rightarrow> bool res" where
  "py_in k (JObj kvs) = Ok (k \<in> fst ` set kvs)"
| "py_in k (JArr xs) = Ok (JStr k \<in> set xs)"
| "py_in k (JStr s) = Ok (sublist k s)"
| "py_in k v = Raise TypeError"

text \<open>\<open>v[k]\<close> for a string \<open>k\<close>.\<close>

fun py_getitem :: "json \<Rightarrow> string \<Rightarrow> json res" where
  "py_getitem (JObj kvs) k = (case map_of kvs k of None \<Rightarrow> Raise KeyError | Some v \<Rightarrow> Ok v)"
| "py_getitem v k = Raise TypeError"

text \<open>\<open>v.get(k, d)\<close>: only a dictionary has the method.\<close>

fun py_get :: "json \<Rightarrow> string \<Rightarrow> json \<Rightarrow> json res" where
  "py_get (JObj kvs) k d = Ok (case map_of kvs k of None \<Rightarrow> d | Some v \<Rightarrow> v)"
| "py_get v k d = Raise AttributeError"

text \<open>\<open>r and k in r\<close>: the test every step makes on a response.\<close>

definition and_in :: "json \<Rightarrow> string \<Rightarrow> bool res" where
  "and_in r k = (if truthy r then py_in k r else Ok False)"

text \<open>\<open>r or {}\<close>.\<close>

definition or_empty :: "json \<Rightarrow> json" where
  "or_empty r = (if truthy r then r else JObj [])"

text \<open>The characters of a string, each as the bytes of its UTF-8 encoding.\<close>

definition is_cont :: "char \<Rightarrow> bool" where
  "is_cont c = ((128::nat) \<le> of_char c \<and> of_char c < (192::nat))"

function utf8_chars :: "string \<Rightarrow> string list" where
  "utf8_chars [] = []"
| "utf8_chars (c # cs) = (c # takeWhile is_cont cs) # utf8_chars (dropWhile is_cont cs)"
  by pat_completeness auto
termination
  by (relation "measure length") (auto intro: le_imp_less_Suc length_dropWhile_le)

text \<open>
  \<open>for c in v\<close>: the elements of a list, the keys of a dictionary, the characters of a
  string; \<open>TypeError\<close> on anything else. The keys of a dictionary come in the order
  of their first insertion.
\<close>

definition dict_keys :: "(string \<times> json) list \<Rightarrow> string list" where
  "dict_keys kvs = rev (remdups (rev (map fst kvs)))"

fun py_iter :: "json \<Rightarrow> json list res" where
  "py_iter (JArr xs) = Ok xs"
| "py_iter (JObj kvs) = Ok (map JStr (dict_keys kvs))"
| "py_iter (JStr s) = Ok (map JStr (utf8_chars s))"
| "py_iter v = Raise TypeError"

section \<open>The child process and the transport\<close>

text \<open>
  What the child does at one request/response exchange, as the harness sees it: the write
  to its input stream fails; or the write succeeds and the line read back is not UTF-8
  (so \<open>.decode()\<close> raises), is not JSON (so \<open>json.loads\<close> raises), or decodes to a
  value. When the child has nothing more to say the read returns the empty line, which is
  not JSON either.
\<close>

datatype exchange = WriteFails | BadUtf8 | BadJson | Json json

text \<open>
  The \<open>Popen\<close> object: the command and environment it was started with, every request
  written to its input stream so far (each one line, \<open>json.dumps(req) + "\n"\<close>), the exchanges
  still to come, what the child does once asked to terminate (exit within the five seconds
  the workflow script waits, exit later, or never), and the calls made to stop it.
\<close>

datatype term_response = ExitsInTime | ExitsLate | NeverExits

record process =
  cmd :: "string list"
  env :: "string \<rightharpoonup> string"
  stdin_log :: "json list"
  script :: "exchange list"
  on_terminate :: term_response
  running :: bool
  terminate_calls :: nat
  wait_calls :: nat
  kill_calls :: nat

type_synonym 'a step = "process \<Rightarrow> 'a res \<times> process"

definition bind :: "'a step \<Rightarrow> ('a \<Rightarrow> 'b step) \<Rightarrow> 'b step" where
  "bind m f p = (case m p of (Raise e, p') \<Rightarrow> (Raise e, p') | (Ok x, p') \<Rightarrow> f x p')"

definition lift :: "'a res \<Rightarrow> 'a step" where
  "lift r p = (r, p)"

definition py_assert :: "bool res \<Rightarrow> unit step" where
  "py_assert c p =
     (case c of Raise e \<Rightarrow> (Raise e, p)
      | Ok b \<Rightarrow> (if b then (Ok (), p) else (Raise AssertionError, p)))"

definition request :: "string \<Rightarrow> json option \<Rightarrow> int \<Rightarrow> json" where
  "request method params request_id =
     JObj ([(''jsonrpc'', JStr ''2.0''), (''method'', JStr method), (''id'', JInt request_id)]
           @ (case params of None \<Rightarrow> [] | Some ps \<Rightarrow> [(''params'', ps)]))"

text \<open>
  \<open>send_rpc_request\<close> of \<open>test_stdio_rpc_e2e.py\<close>. It returns the decoded value, or
  \<open>None\<close> when \<open>json.loads\<close> raised; the write and the UTF-8 decoding are outside its
  \<open>try\<close>.
\<close>

definition send_rpc_request :: "string \<Rightarrow> json option \<Rightarrow> int \<Rightarrow> json step" where
  "send_rpc_request method params request_id p =
     (let req = request method params request_id;
          sent = p\<lparr>stdin_log := stdin_log p @ [req]\<rparr>
      in case script p of
           [] \<Rightarrow> (Ok JNull, sent)
         | x # xs \<Rightarrow>
            (case x of
               WriteFails \<Rightarrow> (Raise BrokenPipeError, p\<lparr>script := xs\<rparr>)
             | BadUtf8 \<Rightarrow> (Raise UnicodeDecodeError, sent\<lparr>script := xs\<rparr>)
             | BadJson \<Rightarrow> (Ok JNull, sent\<lparr>script := xs\<rparr>)
             | Json v \<Rightarrow> (Ok v, sent\<lparr>script := xs\<rparr>)))"

text \<open>
  \<open>send_rpc_request\<close> of \<open>test_stdio_rpc.py\<close>: the same, but \<open>params\<close> is added only
  when it is truthy.
\<close>

definition send_rpc_request_basic :: "string \<Rightarrow> json option \<Rightarrow> int \<Rightarrow> json step" where
  "send_rpc_request_basic method params request_id =
     send_rpc_request method
       (case params of None \<Rightarrow> None | Some ps \<Rightarrow> if truthy ps then Some ps else None)
       request_id"

section \<open>The workflow of \<open>test_stdio_rpc_e2e.py\<close>\<close>

text \<open>
  \<open>main\<close> fixes tenant, provider, configuration path and action name; the steps below
  take them as arguments and \<open>main_try\<close> supplies the script's values.
\<close>

definition expected_action_trn :: "string \<Rightarrow> string \<Rightarrow> string \<Rightarrow> string" where
  "expected_action_trn tenant provider action_name =
     ''trn:openact:'' @ tenant @ '':action/'' @ provider @ ''/'' @ action_name @ ''@v1''"

text \<open>Step 1: \<open>assert r and "result" in r\<close>.\<close>

definition step_health :: "unit step" where
  "step_health =
     bind (send_rpc_request ''health'' None 1) (\<lambda>r.
     py_assert (and_in r ''result''))"

text \<open>Step 2, first half: the delete, whose return value is dropped.\<close>

definition step_delete :: "string \<Rightarrow> string \<Rightarrow> string \<Rightarrow> unit step" where
  "step_delete tenant provider action_name =
     bind (send_rpc_request ''action.delete''
             (Some (JObj [(''trn'', JStr (expected_action_trn tenant provider action_name))])) 1)
       (\<lambda>r. lift (Ok ()))"

text \<open>
  The three tests on the error message, joined by \<open>or\<close>: evaluated left to right, stopping
  at the first that holds.
\<close>

definition conflict_markers :: "string list" where
  "conflict_markers =
     [''UNIQUE constraint failed: actions.trn'', ''already exists'', ''Invalid input'']"

fun any_in :: "string list \<Rightarrow> json \<Rightarrow> bool res" where
  "any_in [] msg = Ok False"
| "any_in [k] msg = py_in k msg"
| "any_in (k # ks) msg = bind_res (py_in k msg) (\<lambda>b. if b then Ok True else any_in ks msg)"

text \<open>The handle step 2 ends with, from the response to \<open>action.register\<close>.\<close>

definition register_handle :: "string \<Rightarrow> string \<Rightarrow> string \<Rightarrow> json \<Rightarrow> json res" where
  "register_handle tenant provider action_name r =
     bind_res (and_in r ''result'') (\<lambda>ok.
       if ok then
         bind_res (py_getitem r ''result'') (\<lambda>res. py_getitem res ''action_trn'')
       else
         bind_res (py_get (or_empty r) ''error'' (JObj [])) (\<lambda>err.
         bind_res (py_get err ''message'' (JStr [])) (\<lambda>msg.
         bind_res (any_in conflict_markers msg) (\<lambda>known.
           if known then Ok (JStr (expected_action_trn tenant provider action_name))
           else Raise AssertionError))))"

definition step_register :: "string \<Rightarrow> string \<Rightarrow> string \<Rightarrow> string \<Rightarrow> json step" where
  "step_register tenant provider action_yaml action_name =
     bind (send_rpc_request ''action.register''
             (Some (JObj [(''config_path'', JStr action_yaml), (''tenant'', JStr tenant),
                          (''provider'', JStr provider), (''name'', JStr action_name)])) 1)
       (\<lambda>r. lift (register_handle tenant provider action_name r))"

text \<open>Step 3: \<open>assert ru and ("result" in ru or "error" not in ru)\<close>.\<close>

definition update_accepted :: "json \<Rightarrow> bool res" where
  "update_accepted ru =
     (if truthy ru then
        bind_res (py_in ''result'' ru) (\<lambda>a.
          if a then Ok True else bind_res (py_in ''error'' ru) (\<lambda>b. Ok (\<not> b)))
      else Ok False)"

definition step_update :: "string \<Rightarrow> json \<Rightarrow> unit step" where
  "step_update action_yaml action_trn =
     bind (send_rpc_request ''action.update''
             (Some (JObj [(''trn'', action_trn), (''config_path'', JStr action_yaml)])) 1)
       (\<lambda>ru. py_assert (update_accepted ru))"

text \<open>Step 4: \<open>auth.pat\<close>, and \<open>auth.list\<close> when it did not succeed.\<close>

fun is_candidate :: "string \<Rightarrow> string \<Rightarrow> json \<Rightarrow> bool" where
  "is_candidate tenant provider (JStr c) = (sublist tenant c \<and> sublist provider c)"
| "is_candidate tenant provider v = False"

definition auth_fallback :: "string \<Rightarrow> string \<Rightarrow> json step" where
  "auth_fallback tenant provider =
     bind (send_rpc_request ''auth.list'' None 1) (\<lambda>rl.
     bind (py_assert (and_in rl ''result'')) (\<lambda>_.
     bind (lift (py_getitem rl ''result'')) (\<lambda>res.
     bind (lift (py_get res ''connections'' (JArr []))) (\<lambda>conns.
     bind (lift (py_iter conns)) (\<lambda>cs.
       case filter (is_candidate tenant provider) cs of
         [] \<Rightarrow> lift (Raise AssertionError)
       | c # _ \<Rightarrow> lift (Ok c))))))"

definition step_auth :: "string \<Rightarrow> string \<Rightarrow> json step" where
  "step_auth tenant provider =
     bind (send_rpc_request ''auth.pat''
             (Some (JObj [(''tenant'', JStr tenant), (''provider'', JStr provider),
                          (''user_id'', JStr ''user1''),
                          (''access_token'', JStr ''dummy-token-for-test'')])) 1) (\<lambda>r.
     bind (lift (and_in r ''result'')) (\<lambda>ok.
       if ok then
         lift (bind_res (py_getitem r ''result'') (\<lambda>res. py_getitem res ''connection_trn''))
       else auth_fallback tenant provider))"

text \<open>Step 5: \<open>binding.create\<close>, and \<open>binding.get\<close> when it did not succeed.\<close>

definition step_bind :: "string \<Rightarrow> json \<Rightarrow> json \<Rightarrow> unit step" where
  "step_bind tenant action_trn auth_trn =
     bind (send_rpc_request ''binding.create''
             (Some (JObj [(''tenant'', JStr tenant), (''action_trn'', action_trn),
                          (''auth_trn'', auth_trn)])) 1) (\<lambda>r.
     bind (lift (and_in r ''result'')) (\<lambda>ok.
       if ok then lift (Ok ())
       else
         bind (send_rpc_request ''binding.get''
                 (Some (JObj [(''tenant'', JStr tenant), (''action_trn'', action_trn)])) 1)
           (\<lambda>rg. py_assert (and_in rg ''result''))))"

text \<open>Step 6.\<close>

definition step_run :: "string \<Rightarrow> json \<Rightarrow> json step" where
  "step_run tenant action_trn =
     bind (send_rpc_request ''run''
             (Some (JObj [(''tenant'', JStr tenant), (''action_trn'', action_trn)])) 1) (\<lambda>r.
     bind (py_assert (and_in r ''result'')) (\<lambda>_.
       lift (bind_res (py_getitem r ''result'') (\<lambda>res. py_getitem res ''execution_trn''))))"

text \<open>Steps 7 and 8: \<open>assert r and "result" in r and k in r["result"]\<close>.\<close>

definition result_has :: "json \<Rightarrow> string \<Rightarrow> bool res" where
  "result_has r k =
     bind_res (and_in r ''result'') (\<lambda>ok.
       if ok then bind_res (py_getitem r ''result'') (\<lambda>res. py_in k res) else Ok False)"

definition step_get :: "json \<Rightarrow> unit step" where
  "step_get execution_trn =
     bind (send_rpc_request ''execution.get'' (Some (JObj [(''execution_trn'', execution_trn)])) 1)
       (\<lambda>r. py_assert (result_has r ''execution''))"

definition step_list :: "string \<Rightarrow> unit step" where
  "step_list tenant =
     bind (send_rpc_request ''execution.list''
             (Some (JObj [(''tenant'', JStr tenant), (''limit'', JInt 10), (''offset'', JInt 0)])) 1)
       (\<lambda>r. py_assert (result_has r ''executions''))"

text \<open>The body of the \<open>try\<close> block, from step 4 on, from step 2 on, and whole.\<close>

definition from_auth :: "string \<Rightarrow> string \<Rightarrow> json \<Rightarrow> unit step" where
  "from_auth tenant provider action_trn =
     bind (step_auth tenant provider) (\<lambda>auth_trn.
     bind (step_bind tenant action_trn auth_trn) (\<lambda>_.
     bind (step_run tenant action_trn) (\<lambda>execution_trn.
     bind (step_get execution_trn) (\<lambda>_.
     step_list tenant))))"

definition from_register :: "string \<Rightarrow> string \<Rightarrow> string \<Rightarrow> string \<Rightarrow> unit step" where
  "from_register tenant provider action_yaml action_name =
     bind (step_register tenant provider action_yaml action_name) (\<lambda>action_trn.
     bind (step_update action_yaml action_trn) (\<lambda>_.
     from_auth tenant provider action_trn))"

definition workflow :: "string \<Rightarrow> string \<Rightarrow> string \<Rightarrow> string \<Rightarrow> unit step" where
  "workflow tenant provider action_yaml action_name =
     bind step_health (\<lambda>_.
     bind (step_delete tenant provider action_name) (\<lambda>_.
     from_register tenant provider action_yaml action_name))"

definition main_try :: "unit step" where
  "main_try =
     workflow ''test'' ''github'' ''./providers/github/actions/get-user.openapi.yaml'' ''get-user''"

section \<open>Starting and stopping the child\<close>

text \<open>
  What the scripts find on the machine they run on: the ambient environment
  (\<open>os.environ\<close>), whether \<open>cargo\<close> is on the path, the path of the built binary and
  whether it exists, and the child: its exchanges and how it answers a request to
  terminate.
\<close>

record host =
  ambient :: "string \<rightharpoonup> string"
  has_cargo :: bool
  binary_path :: string
  binary_exists :: bool
  child_script :: "exchange list"
  child_term :: term_response

definition popen :: "string list \<Rightarrow> (string \<rightharpoonup> string) \<Rightarrow> host \<Rightarrow> process" where
  "popen c e h =
     \<lparr>cmd = c, env = e, stdin_log = [], script = child_script h,
      on_terminate = child_term h, running = True,
      terminate_calls = 0, wait_calls = 0, kill_calls = 0\<rparr>"

text \<open>\<open>env = os.environ.copy(); env.update({...})\<close> of \<open>test_stdio_rpc_e2e.py\<close>.\<close>

definition e2e_env :: "(string \<rightharpoonup> string) \<Rightarrow> (string \<rightharpoonup> string)" where
  "e2e_env environ =
     environ(''OPENACT_DATABASE_URL'' \<mapsto>
               ''sqlite:/Users/sryu/projects/aionixone/openact/manifest/data/openact.db'',
             ''OPENACT_MASTER_KEY'' \<mapsto> ''your-32-byte-key-here-for-testing'',
             ''RUST_LOG'' \<mapsto> ''info'')"

text \<open>\<open>env = {...}\<close> of \<open>test_stdio_rpc.py\<close>.\<close>

definition basic_env :: "string \<rightharpoonup> string" where
  "basic_env =
     [''OPENACT_DATABASE_URL'' \<mapsto> ''sqlite:./data/openact.db'',
      ''OPENACT_MASTER_KEY'' \<mapsto> ''your-32-byte-key-here-for-testing'',
      ''RUST_LOG'' \<mapsto> ''info'']"

text \<open>
  The \<open>finally\<close> block of \<open>test_stdio_rpc_e2e.py\<close>: \<open>terminate()\<close>, then
  \<open>wait(timeout=5)\<close>, which raises when the child has not exited in time; the handler
  calls \<open>kill()\<close>.
\<close>

definition stop :: "process \<Rightarrow> process" where
  "stop p =
     (let p1 = p\<lparr>terminate_calls := Suc (terminate_calls p)\<rparr>;
          p2 = p1\<lparr>wait_calls := Suc (wait_calls p1)\<rparr>
      in if on_terminate p2 = ExitsInTime then p2\<lparr>running := False\<rparr>
         else p2\<lparr>kill_calls := Suc (kill_calls p2), running := False\<rparr>)"

text \<open>
  \<open>main\<close> of \<open>test_stdio_rpc_e2e.py\<close>: the exception that leaves it, if any, and the
  child, if one was started.
\<close>

definition run_child :: "host \<Rightarrow> string list \<Rightarrow> unit res \<times> process option" where
  "run_child h c =
     (case main_try (popen c (e2e_env (ambient h)) h) of (r, p) \<Rightarrow> (r, Some (stop p)))"

definition main :: "host \<Rightarrow> unit res \<times> process option" where
  "main h =
     (if has_cargo h then run_child h [''cargo'', ''run'', ''-q'', ''-p'', ''openact-stdio'']
      else if \<not> binary_exists h then (Raise (SystemExit 1), None)
      else run_child h [binary_path h])"

section \<open>\<open>test_stdio_rpc.py\<close>\<close>

text \<open>
  The five tests only print. The last one reads \<open>response['error']['message']\<close> when the
  response has an \<open>error\<close> and no \<open>result\<close>.
\<close>

definition basic_check :: "string \<Rightarrow> string \<Rightarrow> unit step" where
  "basic_check method k =
     bind (send_rpc_request_basic method None 1) (\<lambda>r.
     bind (lift (and_in r k)) (\<lambda>_. lift (Ok ())))"

definition basic_register_report :: "json \<Rightarrow> unit res" where
  "basic_register_report r =
     (if truthy r then
        bind_res (py_in ''result'' r) (\<lambda>a.
          if a then Ok ()
          else bind_res (py_in ''error'' r) (\<lambda>b.
            if b then
              bind_res (py_getitem r ''error'') (\<lambda>e.
              bind_res (py_getitem e ''message'') (\<lambda>_. Ok ()))
            else Ok ()))
      else Ok ())"

definition basic_try :: "unit step" where
  "basic_try =
     bind (basic_check ''health'' ''result'') (\<lambda>_.
     bind (basic_check ''status'' ''result'') (\<lambda>_.
     bind (basic_check ''doctor'' ''result'') (\<lambda>_.
     bind (basic_check ''invalid_method'' ''error'') (\<lambda>_.
     bind (send_rpc_request_basic ''action.register''
             (Some (JObj [(''config_path'', JStr ''./providers/github/actions/get-user.yaml''),
                          (''tenant'', JStr ''test''), (''provider'', JStr ''github''),
                          (''name'', JStr ''get-user'')])) 1)
       (\<lambda>r. lift (basic_register_report r))))))"

text \<open>
  Its \<open>finally\<close> block: \<open>terminate()\<close>, then \<open>wait()\<close> with no timeout, which does not
  return while the child runs.
\<close>

datatype 'a outcome = Returns 'a | Blocks 'a

definition stop_basic :: "process \<Rightarrow> process outcome" where
  "stop_basic p =
     (let p1 = p\<lparr>terminate_calls := Suc (terminate_calls p)\<rparr>;
          p2 = p1\<lparr>wait_calls := Suc (wait_calls p1)\<rparr>
      in if on_terminate p2 = NeverExits then Blocks p2
         else Returns (p2\<lparr>running := False\<rparr>))"

text \<open>
  \<open>test_stdio_rpc\<close>: \<open>Popen\<close> is inside the \<open>try\<close>, every exception is caught and
  printed, and the \<open>finally\<close> block stops the child when one was started.
\<close>

definition test_stdio_rpc :: "host \<Rightarrow> process option outcome" where
  "test_stdio_rpc h =
     (if has_cargo h then
        (case basic_try (popen [''cargo'', ''run'', ''-q'', ''-p'', ''openact-stdio''] basic_env h) of
           (r, p) \<Rightarrow>
             (case stop_basic p of Returns q \<Rightarrow> Returns (Some q) | Blocks q \<Rightarrow> Blocks (Some q)))
      else Returns None)"

section \<open>The callback listener\<close>

text \<open>
  \<open>main\<close> of \<open>scripts/callback_server.py\<close> computes
  \<open>PORT = int(os.environ.get("OPENACT_CALLBACK_PORT", "8080"))\<close>; Python's \<open>int\<close> on a
  string is the argument \<open>int_of_str\<close>, \<open>None\<close> where it raises \<open>ValueError\<close>.
  \<open>main\<close> of \<open>authflow/scripts/callback_server.py\<close> has \<open>PORT = 8080\<close>.
\<close>

definition callback_port :: "(string \<Rightarrow> int option) \<Rightarrow> (string \<rightharpoonup> string) \<Rightarrow> int res" where
  "callback_port int_of_str environ =
     (case int_of_str (case environ ''OPENACT_CALLBACK_PORT'' of None \<Rightarrow> ''8080'' | Some v \<Rightarrow> v) of
        None \<Rightarrow> Raise ValueError
      | Some n \<Rightarrow> Ok n)"


section \<open>A started child\<close>

text \<open>
  The process object right after \<open>Popen\<close> on a machine with \<open>cargo\<close> and an empty
  ambient environment, for a child that will go through the given exchanges.
\<close>

definition started :: "exchange list \<Rightarrow> process" where
  "started xs =
     \<lparr>cmd = [''cargo'', ''run'', ''-q'', ''-p'', ''openact-stdio''], env = e2e_env Map.empty,
      stdin_log = [], script = xs, on_terminate = ExitsInTime, running = True,
      terminate_calls = 0, wait_calls = 0, kill_calls = 0\<rparr>"

section \<open>The wire format: \<open>json.dumps\<close> and \<open>json.loads\<close>\<close>

text \<open>
  \<open>send_rpc_request\<close> writes \<open>json.dumps(req) + "\n"\<close> and reads a line back with
  \<open>json.loads(line.decode().strip())\<close>. Both functions are the standard library's, with
  their default arguments. The conversion between floats and their decimal text is taken
  as an argument of each (\<open>float_repr\<close>, \<open>float_of_literal\<close>); the interpreter's limits
  on nesting depth and on the length of integer literals are not modelled.
\<close>

subsection \<open>Strings as code points\<close>

text \<open>
  A string is kept as UTF-8 bytes; \<open>json.dumps\<close> works on its code points. A byte that
  starts no well-formed sequence is taken as a code point of its own.
\<close>

definition byte :: "char \<Rightarrow> nat" where
  "byte c = of_char c"

fun code_points :: "string \<Rightarrow> nat list" where
  "code_points [] = []"
| "code_points [c] = [byte c]"
| "code_points (c # c1 # cs) =
     (if byte c < 192 then byte c # code_points (c1 # cs)
      else if byte c < 224 then ((byte c - 192) * 64 + byte c1 mod 64) # code_points cs
      else (case cs of
              [] \<Rightarrow> byte c # code_points (c1 # cs)
            | c2 # cs2 \<Rightarrow>
               (if byte c < 240
                then ((byte c - 224) * 4096 + (byte c1 mod 64) * 64 + byte c2 mod 64)
                       # code_points cs2
                else (case cs2 of
                        [] \<Rightarrow> byte c # code_points (c1 # cs)
                      | c3 # cs3 \<Rightarrow>
                         ((byte c - 240) * 262144 + (byte c1 mod 64) * 4096 +
                          (byte c2 mod 64) * 64 + byte c3 mod 64) # code_points cs3))))"

definition utf8_encode :: "nat \<Rightarrow> string" where
  "utf8_encode n =
     (if n < 128 then [char_of n]
      else if n < 2048 then [char_of (192 + n div 64), char_of (128 + n mod 64)]
      else if n < 65536 then
        [char_of (224 + n div 4096), char_of (128 + n div 64 mod 64), char_of (128 + n mod 64)]
      else
        [char_of (240 + n div 262144), char_of (128 + n div 4096 mod 64),
         char_of (128 + n div 64 mod 64), char_of (128 + n mod 64)])"

subsection \<open>\<open>json.dumps\<close>\<close>

definition hex_digit :: "nat \<Rightarrow> char" where
  "hex_digit n = (if n < 10 then char_of (48 + n) else char_of (87 + n))"

definition hex4 :: "nat \<Rightarrow> string" where
  "hex4 n = [hex_digit (n div 4096 mod 16), hex_digit (n div 256 mod 16),
             hex_digit (n div 16 mod 16), hex_digit (n mod 16)]"

text \<open>
  One code point of a string, as \<open>ensure_ascii\<close> writes it: the two-character escapes,
  printable ASCII as it is, anything else as \<open>\uXXXX\<close>, a surrogate pair above the basic
  plane.
\<close>

definition escape_cp :: "nat \<Rightarrow> string" where
  "escape_cp n =
     (if n = 34 then [CHR 0x5C, CHR 0x22]
      else if n = 92 then [CHR 0x5C, CHR 0x5C]
      else if n = 8 then [CHR 0x5C, CHR ''b'']
      else if n = 12 then [CHR 0x5C, CHR ''f'']
      else if n = 10 then [CHR 0x5C, CHR ''n'']
      else if n = 13 then [CHR 0x5C, CHR ''r'']
      else if n = 9 then [CHR 0x5C, CHR ''t'']
      else if 32 \<le> n \<and> n \<le> 126 then [char_of n]
      else if n < 65536 then CHR 0x5C # CHR ''u'' # hex4 n
      else CHR 0x5C # CHR ''u'' # hex4 (55296 + (n - 65536) div 1024 mod 1024)
           @ CHR 0x5C # CHR ''u'' # hex4 (56320 + (n - 65536) mod 1024))"

definition dumps_str :: "string \<Rightarrow> string" where
  "dumps_str s = CHR 0x22 # concat (map escape_cp (code_points s)) @ [CHR 0x22]"

function dec :: "nat \<Rightarrow> string" where
  "dec n = (if n < 10 then [char_of (48 + n)] else dec (n div 10) @ [char_of (48 + n mod 10)])"
  by pat_completeness auto
termination
  by (relation "measure id") auto

declare dec.simps [simp del]

definition dumps_int :: "int \<Rightarrow> string" where
  "dumps_int i = (if i < 0 then CHR ''-'' # dec (nat (- i)) else dec (nat i))"

fun join :: "string \<Rightarrow> string list \<Rightarrow> string" where
  "join sep [] = []"
| "join sep [x] = x"
| "join sep (x # y # ys) = x @ sep @ join sep (y # ys)"

fun json_dumps :: "(pyfloat \<Rightarrow> string) \<Rightarrow> json \<Rightarrow> string" where
  "json_dumps float_repr JNull = ''null''"
| "json_dumps float_repr (JBool b) = (if b then ''true'' else ''false'')"
| "json_dumps float_repr (JInt i) = dumps_int i"
| "json_dumps float_repr (JFloat f) =
     (case f of NaN \<Rightarrow> ''NaN'' | PosInf \<Rightarrow> ''Infinity'' | NegInf \<Rightarrow> ''-Infinity''
      | _ \<Rightarrow> float_repr f)"
| "json_dumps float_repr (JStr s) = dumps_str s"
| "json_dumps float_repr (JArr xs) =
     ''['' @ join '', '' (map (json_dumps float_repr) xs) @ '']''"
| "json_dumps float_repr (JObj kvs) =
     ''{'' @ join '', '' (map (\<lambda>kv. dumps_str (fst kv) @ '': '' @ json_dumps float_repr (snd kv)) kvs)
     @ ''}''"

text \<open>The line \<open>send_rpc_request\<close> writes for a request.\<close>

definition encode_line :: "(pyfloat \<Rightarrow> string) \<Rightarrow> json \<Rightarrow> string" where
  "encode_line float_repr req = json_dumps float_repr req @ [CHR 0x0A]"

subsection \<open>\<open>json.loads\<close>\<close>

definition is_ws :: "char \<Rightarrow> bool" where
  "is_ws c = (c = CHR '' '' \<or> c = CHR 0x09 \<or> c = CHR 0x0A \<or> c = CHR 0x0D)"

definition skip_ws :: "string \<Rightarrow> string" where
  "skip_ws s = dropWhile is_ws s"

definition is_digit :: "char \<Rightarrow> bool" where
  "is_digit c = (48 \<le> byte c \<and> byte c \<le> 57)"

definition hex_val :: "char \<Rightarrow> nat option" where
  "hex_val c =
     (if 48 \<le> byte c \<and> byte c \<le> 57 then Some (byte c - 48)
      else if 97 \<le> byte c \<and> byte c \<le> 102 then Some (byte c - 87)
      else if 65 \<le> byte c \<and> byte c \<le> 70 then Some (byte c - 55)
      else None)"

definition hex4_val :: "char \<Rightarrow> char \<Rightarrow> char \<Rightarrow> char \<Rightarrow> nat option" where
  "hex4_val a b c d =
     (case (hex_val a, hex_val b, hex_val c, hex_val d) of
        (Some x, Some y, Some z, Some w) \<Rightarrow> Some (x * 4096 + y * 256 + z * 16 + w)
      | _ \<Rightarrow> None)"

text \<open>The character a two-character escape stands for.\<close>

definition unescape :: "char \<Rightarrow> char option" where
  "unescape e =
     (if e = CHR 0x22 then Some (CHR 0x22)
      else if e = CHR 0x5C then Some (CHR 0x5C)
      else if e = CHR ''/'' then Some (CHR ''/'')
      else if e = CHR ''b'' then Some (CHR 0x08)
      else if e = CHR ''f'' then Some (CHR 0x0C)
      else if e = CHR ''n'' then Some (CHR 0x0A)
      else if e = CHR ''r'' then Some (CHR 0x0D)
      else if e = CHR ''t'' then Some (CHR 0x09)
      else None)"

text \<open>
  After a \<open>\uXXXX\<close> that is a high surrogate: the code point of the pair, when a
  \<open>\uXXXX\<close> that is a low surrogate follows.
\<close>

definition surrogate_pair :: "nat \<Rightarrow> string \<Rightarrow> nat option" where
  "surrogate_pair u s =
     (case s of
        b # x # a1 # a2 # a3 # a4 # _ \<Rightarrow>
          (if 55296 \<le> u \<and> u \<le> 56319 \<and> b = CHR 0x5C \<and> x = CHR ''u'' then
             (case hex4_val a1 a2 a3 a4 of
                None \<Rightarrow> None
              | Some u2 \<Rightarrow>
                 if 56320 \<le> u2 \<and> u2 \<le> 57343
                 then Some (65536 + (u - 55296) * 1024 + (u2 - 56320)) else None)
           else None)
      | _ \<Rightarrow> None)"

definition emit :: "string \<Rightarrow> (string \<times> string) option \<Rightarrow> (string \<times> string) option" where
  "emit t res = (case res of None \<Rightarrow> None | Some (s, r) \<Rightarrow> Some (t @ s, r))"

text \<open>
  The body of a string, from just after the opening quote: the string and the text after
  the closing quote. Control characters are refused (\<open>strict\<close> is the default).
\<close>

fun parse_str :: "string \<Rightarrow> (string \<times> string) option" where
  "parse_str [] = None"
| "parse_str (c # cs) =
     (if c = CHR 0x22 then Some ([], cs)
      else if c = CHR 0x5C then
        (case cs of
           [] \<Rightarrow> None
         | e # r \<Rightarrow>
            (if e = CHR ''u'' then
               (case r of
                  a1 # a2 # a3 # a4 # r4 \<Rightarrow>
                    (case hex4_val a1 a2 a3 a4 of
                       None \<Rightarrow> None
                     | Some u \<Rightarrow>
                        (case surrogate_pair u r4 of
                           Some n \<Rightarrow> emit (utf8_encode n) (parse_str (drop 6 r4))
                         | None \<Rightarrow> emit (utf8_encode u) (parse_str r4)))
                | _ \<Rightarrow> None)
             else (case unescape e of
                     None \<Rightarrow> None
                   | Some ch \<Rightarrow> emit [ch] (parse_str r))))
      else if byte c < 32 then None
      else emit [c] (parse_str cs))"

definition digits_val :: "string \<Rightarrow> nat" where
  "digits_val ds = foldl (\<lambda>a c. 10 * a + (byte c - 48)) 0 ds"

text \<open>
  A number, as the scanner's pattern \<open>(-?(?:0|[1-9]\d*))(\.\d+)?([eE][-+]?\d+)?\<close>
  matches it: the integer part after the sign, the fraction and the exponent (each empty
  when absent); an integer when there is neither fraction nor exponent, a float otherwise.
\<close>

definition int_part :: "string \<Rightarrow> string" where
  "int_part s =
     (case s of
        [] \<Rightarrow> []
      | d # r \<Rightarrow>
         if \<not> is_digit d then []
         else if d = CHR ''0'' then [d]
         else d # takeWhile is_digit r)"

definition frac_part :: "string \<Rightarrow> string" where
  "frac_part s =
     (case s of
        p # q # r \<Rightarrow> if p = CHR ''.'' \<and> is_digit q then p # takeWhile is_digit (q # r) else []
      | _ \<Rightarrow> [])"

definition exp_part :: "string \<Rightarrow> string" where
  "exp_part s =
     (case s of
        [] \<Rightarrow> []
      | e # r \<Rightarrow>
         if e = CHR ''e'' \<or> e = CHR ''E'' then
           (let sg = (case r of
                        [] \<Rightarrow> []
                      | x # _ \<Rightarrow> if x = CHR ''+'' \<or> x = CHR ''-'' then [x] else []);
                ds = takeWhile is_digit (drop (length sg) r)
            in if ds = [] then [] else e # sg @ ds)
         else [])"

definition parse_number :: "(string \<Rightarrow> pyfloat) \<Rightarrow> string \<Rightarrow> (json \<times> string) option" where
  "parse_number float_of_literal s =
     (let neg = (s \<noteq> [] \<and> hd s = CHR ''-'');
          s1 = (if neg then tl s else s);
          ip = int_part s1
      in if ip = [] then None
         else
           let r1 = drop (length ip) s1;
               frac = frac_part r1;
               r3 = drop (length frac) r1;
               ex = exp_part r3;
               rest = drop (length ex) r3
           in if frac = [] \<and> ex = [] then
                Some (JInt (if neg then - int (digits_val ip) else int (digits_val ip)), rest)
              else
                Some (JFloat (float_of_literal ((if neg then ''-'' else []) @ ip @ frac @ ex)),
                      rest))"

text \<open>A dictionary built from pairs in order: a later value replaces an earlier one in place.\<close>

fun dict_put :: "string \<Rightarrow> json \<Rightarrow> (string \<times> json) list \<Rightarrow> (string \<times> json) list" where
  "dict_put k v [] = [(k, v)]"
| "dict_put k v ((k', v') # kvs) =
     (if k' = k then (k', v) # kvs else (k', v') # dict_put k v kvs)"

definition dict_of_pairs :: "(string \<times> json) list \<Rightarrow> (string \<times> json) list" where
  "dict_of_pairs ps = foldl (\<lambda>d kv. dict_put (fst kv) (snd kv) d) [] ps"

definition starts_with :: "string \<Rightarrow> string \<Rightarrow> bool" where
  "starts_with p s = (take (length p) s = p)"

text \<open>
  The scanner, at the first character of a value. The first argument after the float
  conversion bounds the number of nested calls; \<open>json_loads\<close> gives it more than the
  length of the text. \<open>parse_elems\<close> starts at the first character of an element of a
  list, \<open>parse_members\<close> just after the opening quote of a key.
\<close>

fun parse_value :: "(string \<Rightarrow> pyfloat) \<Rightarrow> nat \<Rightarrow> string \<Rightarrow> (json \<times> string) option"
  and parse_elems :: "(string \<Rightarrow> pyfloat) \<Rightarrow> nat \<Rightarrow> string \<Rightarrow> (json list \<times> string) option"
  and parse_members ::
    "(string \<Rightarrow> pyfloat) \<Rightarrow> nat \<Rightarrow> string \<Rightarrow> ((string \<times> json) list \<times> string) option"
where
  "parse_value F 0 s = None"
| "parse_value F (Suc n) s =
     (case s of
        [] \<Rightarrow> None
      | c # r \<Rightarrow>
         if c = CHR 0x22 then
           (case parse_str r of None \<Rightarrow> None | Some (t, r') \<Rightarrow> Some (JStr t, r'))
         else if c = CHR ''{'' then
           (case skip_ws r of
              [] \<Rightarrow> None
            | c' # r' \<Rightarrow>
               if c' = CHR ''}'' then Some (JObj [], r')
               else if c' = CHR 0x22 then
                 (case parse_members F n r' of
                    None \<Rightarrow> None
                  | Some (ps, r'') \<Rightarrow> Some (JObj (dict_of_pairs ps), r''))
               else None)
         else if c = CHR ''['' then
           (case skip_ws r of
              [] \<Rightarrow> None
            | c' # r' \<Rightarrow>
               if c' = CHR '']'' then Some (JArr [], r')
               else (case parse_elems F n (c' # r') of
                       None \<Rightarrow> None
                     | Some (vs, r'') \<Rightarrow> Some (JArr vs, r'')))
         else if starts_with ''null'' s then Some (JNull, drop 4 s)
         else if starts_with ''true'' s then Some (JBool True, drop 4 s)
         else if starts_with ''false'' s then Some (JBool False, drop 5 s)
         else
           (case parse_number F s of
              Some x \<Rightarrow> Some x
            | None \<Rightarrow>
               if starts_with ''NaN'' s then Some (JFloat NaN, drop 3 s)
               else if starts_with ''Infinity'' s then Some (JFloat PosInf, drop 8 s)
               else if starts_with ''-Infinity'' s then Some (JFloat NegInf, drop 9 s)
               else None))"
| "parse_elems F 0 s = None"
| "parse_elems F (Suc n) s =
     (case parse_value F n s of
        None \<Rightarrow> None
      | Some (v, r) \<Rightarrow>
         (case skip_ws r of
            [] \<Rightarrow> None
          | c # r' \<Rightarrow>
             if c = CHR '']'' then Some ([v], r')
             else if c = CHR '','' then
               (case parse_elems F n (skip_ws r') of
                  None \<Rightarrow> None
                | Some (vs, r'') \<Rightarrow> Some (v # vs, r''))
             else None))"
| "parse_members F 0 s = None"
| "parse_members F (Suc n) s =
     (case parse_str s of
        None \<Rightarrow> None
      | Some (k, r) \<Rightarrow>
         (case skip_ws r of
            [] \<Rightarrow> None
          | c # r1 \<Rightarrow>
             if c \<noteq> CHR '':'' then None
             else
               (case parse_value F n (skip_ws r1) of
                  None \<Rightarrow> None
                | Some (v, r2) \<Rightarrow>
                   (case skip_ws r2 of
                      [] \<Rightarrow> None
                    | c2 # r3 \<Rightarrow>
                       if c2 = CHR ''}'' then Some ([(k, v)], r3)
                       else if c2 = CHR '','' then
                         (case skip_ws r3 of
                            [] \<Rightarrow> None
                          | q # r4 \<Rightarrow>
                             if q = CHR 0x22 then
                               (case parse_members F n r4 of
                                  None \<Rightarrow> None
                                | Some (ps, r5) \<Rightarrow> Some ((k, v) # ps, r5))
                             else None)
                       else None))))"

text \<open>
  \<open>json.loads\<close>: white space, one value, white space, and nothing more. \<open>None\<close> stands
  for the exception it raises otherwise.
\<close>

definition json_loads :: "(string \<Rightarrow> pyfloat) \<Rightarrow> string \<Rightarrow> json option" where
  "json_loads F s =
     (case parse_value F (Suc (length s)) (skip_ws s) of
        None \<Rightarrow> None
      | Some (v, r) \<Rightarrow> if skip_ws r = [] then Some v else None)"

subsection \<open>Reading a line\<close>

text \<open>The code points \<open>str.strip()\<close> removes from both ends.\<close>

definition is_space_cp :: "nat \<Rightarrow> bool" where
  "is_space_cp n =
     ((9 \<le> n \<and> n \<le> 13) \<or> (28 \<le> n \<and> n \<le> 32) \<or> n = 133 \<or> n = 160 \<or> n = 5760 \<or>
      (8192 \<le> n \<and> n \<le> 8202) \<or> n = 8232 \<or> n = 8233 \<or> n = 8239 \<or> n = 8287 \<or> n = 12288)"

definition is_space :: "string \<Rightarrow> bool" where
  "is_space g = (case code_points g of [n] \<Rightarrow> is_space_cp n | _ \<Rightarrow> False)"

definition py_strip :: "string \<Rightarrow> string" where
  "py_strip s = concat (rev (dropWhile is_space (rev (dropWhile is_space (utf8_chars s)))))"

text \<open>
  What \<open>send_rpc_request\<close> makes of a line that is UTF-8: the decoded value, \<open>None\<close> when
  \<open>json.loads\<close> raises.
\<close>

definition decode_line :: "(string \<Rightarrow> pyfloat) \<Rightarrow> string \<Rightarrow> json option" where
  "decode_line F line = json_loads F (py_strip line)"

subsection \<open>Values without floats and with ASCII strings\<close>

definition ascii :: "string \<Rightarrow> bool" where
  "ascii s = list_all (\<lambda>c. byte c < 128) s"

fun plain :: "json \<Rightarrow> bool" where
  "plain JNull = True"
| "plain (JBool b) = True"
| "plain (JInt i) = True"
| "plain (JFloat f) = False"
| "plain (JStr s) = ascii s"
| "plain (JArr xs) = list_all plain xs"
| "plain (JObj kvs) =
     (distinct (map fst kvs) \<and> list_all (\<lambda>kv. ascii (fst kv) \<and> plain (snd kv)) kvs)"

text \<open>A number of nested calls that is enough for the scanner to read a value back.\<close>

fun fuel_need :: "json \<Rightarrow> nat" where
  "fuel_need (JArr xs) = Suc (sum_list (map (\<lambda>x. Suc (fuel_need x)) xs))"
| "fuel_need (JObj kvs) = Suc (sum_list (map (\<lambda>kv. Suc (fuel_need (snd kv))) kvs))"
| "fuel_need v = 1"

text \<open>A text that cannot continue a number.\<close>

definition ends_number :: "string \<Rightarrow> bool" where
  "ends_number rest =
     (case rest of
        [] \<Rightarrow> True
      | c # _ \<Rightarrow> \<not> is_digit c \<and> c \<noteq> CHR ''.'' \<and> c \<noteq> CHR ''e'' \<and> c \<noteq> CHR ''E'')"

text \<open>The characters a value written by \<open>json.dumps\<close> can start with.\<close>

definition starter :: "char \<Rightarrow> bool" where
  "starter c = (c = CHR 0x22 \<or> c = CHR ''{'' \<or> c = CHR ''['' \<or> c = CHR ''n'' \<or> c = CHR ''t'' \<or>
                c = CHR ''f'' \<or> c = CHR ''-'' \<or> is_digit c)"

text \<open>
  The scanner reads a written value back, given enough nested calls and a text after it
  that does not continue a number.
\<close>

definition reads_back :: "(string \<Rightarrow> pyfloat) \<Rightarrow> (pyfloat \<Rightarrow> string) \<Rightarrow> json \<Rightarrow> bool" where
  "reads_back F R v =
     (\<forall>n rest. fuel_need v \<le> n \<longrightarrow> ends_number rest \<longrightarrow>
        parse_value F n (json_dumps R v @ rest) = Some (v, rest))"

definition member_text :: "(pyfloat \<Rightarrow> string) \<Rightarrow> string \<times> json \<Rightarrow> string" where
  "member_text R kv = dumps_str (fst kv) @ '': '' @ json_dumps R (snd kv)"

subsection \<open>Results that do not depend on the bound\<close>

text \<open>
  A result found with \<open>n\<close> nested calls consumes text, and is found as well with any
  bound that is at least the number of characters consumed.
\<close>

definition settled_value :: "(string \<Rightarrow> pyfloat) \<Rightarrow> nat \<Rightarrow> bool" where
  "settled_value F n =
     (\<forall>s v r. parse_value F n s = Some (v, r) \<longrightarrow>
        length r < length s \<and>
        (\<forall>m. length s - length r \<le> m \<longrightarrow> parse_value F m s = Some (v, r)))"

definition settled_elems :: "(string \<Rightarrow> pyfloat) \<Rightarrow> nat \<Rightarrow> bool" where
  "settled_elems F n =
     (\<forall>s vs r. parse_elems F n s = Some (vs, r) \<longrightarrow>
        length r < length s \<and>
        (\<forall>m. length s - length r \<le> m \<longrightarrow> parse_elems F m s = Some (vs, r)))"

definition settled_members :: "(string \<Rightarrow> pyfloat) \<Rightarrow> nat \<Rightarrow> bool" where
  "settled_members F n =
     (\<forall>s ps r. parse_members F n s = Some (ps, r) \<longrightarrow>
        length r < length s \<and>
        (\<forall>m. length s - length r \<le> m \<longrightarrow> parse_members F m s = Some (ps, r)))"

section \<open>What a step writes\<close>

text \<open>
  A step only ever appends to the log of requests written to the child: the log before
  is a prefix of the log after.
\<close>

definition appends :: "'a step \<Rightarrow> bool" where
  "appends m = (\<forall>p. prefix (stdin_log p) (stdin_log (snd (m p))))"

text \<open>
  A step touches nothing of the process object but the request log and the exchanges to
  come.
\<close>

definition same_child :: "process \<Rightarrow> process \<Rightarrow> bool" where
  "same_child p q =
     (cmd q = cmd p \<and> env q = env p \<and> on_terminate q = on_terminate p \<and>
      running q = running p \<and> terminate_calls q = terminate_calls p \<and>
      wait_calls q = wait_calls p \<and> kill_calls q = kill_calls p)"

definition steady :: "'a step \<Rightarrow> bool" where
  "steady m = (\<forall>p. same_child p (snd (m p)))"

section \<open>Sample machines\<close>

text \<open>A machine with \<open>cargo\<close> whose child answers nothing and ignores the request to terminate.\<close>

definition stubborn_host :: host where
  "stubborn_host =
     \<lparr>ambient = Map.empty, has_cargo = True, binary_path = ''target/debug/openact-stdio'',
      binary_exists = False, child_script = [], child_term = NeverExits\<rparr>"

text \<open>A machine with \<open>cargo\<close> and one ambient variable, whose child answers nothing.\<close>

definition home_host :: host where
  "home_host =
     \<lparr>ambient = [''HOME'' \<mapsto> ''/root''], has_cargo = True,
      binary_path = ''target/debug/openact-stdio'', binary_exists = False,
      child_script = [], child_term = ExitsInTime\<rparr>"

text \<open>
  The request \<open>{"jsonrpc":"2.0","method":"health","id":1}\<close> as one line, with no space
  after the separators.
\<close>

definition dq :: "string \<Rightarrow> string" where
  "dq s = CHR 0x22 # s @ [CHR 0x22]"

definition compact_health_line :: string where
  "compact_health_line =
     ''{'' @ dq ''jsonrpc'' @ '':'' @ dq ''2.0'' @ '','' @ dq ''method'' @ '':'' @ dq ''health''
     @ '','' @ dq ''id'' @ '':1}'' @ [CHR 0x0A]"

section \<open>Every step appends to the request log\<close>

lemma appends_bind:
  assumes "appends m" and "\<And>x. appends (f x)"
  shows "appends (bind m f)"
proof -
  have "prefix (stdin_log p) (stdin_log (snd (bind m f p)))" for p
  proof (cases "m p")
    case (Pair r q)
    have pq: "prefix (stdin_log p) (stdin_log q)"
      using assms(1) Pair by (auto simp: appends_def dest: spec[of _ p])
    show ?thesis
    proof (cases r)
      case (Raise e)
      with Pair pq show ?thesis by (simp add: bind_def)
    next
      case (Ok x)
      have "prefix (stdin_log q) (stdin_log (snd (f x q)))"
        using assms(2)[of x] by (simp add: appends_def)
      with pq Pair Ok show ?thesis by (auto simp: bind_def intro: prefix_order.trans)
    qed
  qed
  then show ?thesis by (simp add: appends_def)
qed

lemma appends_lift: "appends (lift r)"
  by (simp add: appends_def lift_def)

lemma appends_py_assert: "appends (py_assert c)"
  by (auto simp: appends_def py_assert_def split: res.splits)

lemma appends_send: "appends (send_rpc_request m ps i)"
  by (auto simp: appends_def send_rpc_request_def Let_def split: list.splits exchange.splits)

lemmas appends_intros = appends_bind appends_lift appends_py_assert appends_send

lemma appends_step_update: "appends (step_update y h)"
  by (simp add: step_update_def appends_intros)

lemma appends_auth_fallback: "appends (auth_fallback t pr)"
  unfolding auth_fallback_def
  by (intro appends_intros) (auto split: list.splits intro: appends_lift)

lemma appends_step_auth: "appends (step_auth t pr)"
  unfolding step_auth_def
  by (intro appends_intros) (auto intro: appends_lift appends_auth_fallback)

lemma appends_step_bind: "appends (step_bind t a b)"
  unfolding step_bind_def
  by (intro appends_intros) (auto intro: appends_intros)

lemma appends_step_run: "appends (step_run t a)"
  unfolding step_run_def by (intro appends_intros)

lemma appends_step_get: "appends (step_get x)"
  unfolding step_get_def by (intro appends_intros)

lemma appends_step_list: "appends (step_list t)"
  unfolding step_list_def by (intro appends_intros)

lemma appends_from_auth: "appends (from_auth t pr a)"
  unfolding from_auth_def
  by (intro appends_bind appends_step_auth appends_step_bind appends_step_run
        appends_step_get appends_step_list)

lemma appends_after_register: "appends (bind (step_update y h) (\<lambda>_. from_auth t pr h))"
  by (intro appends_bind appends_step_update appends_from_auth)

lemma prefix_bind:
  assumes "prefix L (stdin_log (snd (m p)))" and "\<And>x. appends (f x)"
  shows "prefix L (stdin_log (snd (bind m f p)))"
proof (cases "m p")
  case (Pair r q)
  show ?thesis
  proof (cases r)
    case (Raise e)
    with Pair assms(1) show ?thesis by (simp add: bind_def)
  next
    case (Ok x)
    have "prefix (stdin_log q) (stdin_log (snd (f x q)))"
      using assms(2)[of x] by (simp add: appends_def)
    with Pair Ok assms(1) show ?thesis by (auto simp: bind_def intro: prefix_order.trans)
  qed
qed

lemma send_writes:
  assumes "case script p of [] \<Rightarrow> True | x # _ \<Rightarrow> x \<noteq> WriteFails"
  shows "stdin_log (snd (send_rpc_request m ps i p)) = stdin_log p @ [request m ps i]"
  using assms
  by (auto simp: send_rpc_request_def Let_def split: list.splits exchange.splits)

lemma send_Ok_log:
  assumes "send_rpc_request m ps i p = (Ok r, sent)"
  shows "stdin_log sent = stdin_log p @ [request m ps i]"
  using assms
  by (auto simp: send_rpc_request_def Let_def split: list.splits exchange.splits)

section \<open>Every step leaves the rest of the process object alone\<close>

lemma same_child_refl: "same_child p p"
  by (simp add: same_child_def)

lemma same_child_trans: "same_child p q \<Longrightarrow> same_child q r \<Longrightarrow> same_child p r"
  by (simp add: same_child_def)

lemma steady_bind:
  assumes "steady m" and "\<And>x. steady (f x)"
  shows "steady (bind m f)"
proof -
  have "same_child p (snd (bind m f p))" for p
  proof (cases "m p")
    case (Pair r q)
    have pq: "same_child p q"
      using assms(1) Pair by (auto simp: steady_def dest: spec[of _ p])
    show ?thesis
    proof (cases r)
      case (Raise e)
      with Pair pq show ?thesis by (simp add: bind_def)
    next
      case (Ok x)
      have "same_child q (snd (f x q))"
        using assms(2)[of x] by (simp add: steady_def)
      with pq Pair Ok show ?thesis by (auto simp: bind_def intro: same_child_trans)
    qed
  qed
  then show ?thesis by (simp add: steady_def)
qed

lemma steady_lift: "steady (lift r)"
  by (simp add: steady_def lift_def same_child_refl)

lemma steady_py_assert: "steady (py_assert c)"
  by (auto simp: steady_def py_assert_def same_child_refl split: res.splits)

lemma steady_send: "steady (send_rpc_request m ps i)"
  by (auto simp: steady_def send_rpc_request_def Let_def same_child_def
           split: list.splits exchange.splits)

lemma steady_send_basic: "steady (send_rpc_request_basic m ps i)"
  by (simp add: send_rpc_request_basic_def steady_send)

lemmas steady_intros = steady_bind steady_lift steady_py_assert steady_send steady_send_basic

lemma steady_auth_fallback: "steady (auth_fallback t pr)"
  unfolding auth_fallback_def
  by (intro steady_intros) (auto split: list.splits intro: steady_lift)

lemma steady_step_auth: "steady (step_auth t pr)"
  unfolding step_auth_def
  by (intro steady_intros) (auto intro: steady_lift steady_auth_fallback)

lemma steady_step_bind: "steady (step_bind t a b)"
  unfolding step_bind_def
  by (intro steady_intros) (auto intro: steady_intros)

lemma steady_from_auth: "steady (from_auth t pr a)"
  unfolding from_auth_def step_run_def step_get_def step_list_def
  by (intro steady_bind steady_step_auth steady_step_bind steady_lift steady_py_assert steady_send)

lemma steady_workflow: "steady (workflow t pr y n)"
  unfolding workflow_def from_register_def step_health_def step_delete_def step_register_def
    step_update_def
  by (intro steady_bind steady_from_auth steady_lift steady_py_assert steady_send)

lemma steady_main_try: "steady main_try"
  by (simp add: main_try_def steady_workflow)

lemma steady_basic_try: "steady basic_try"
  unfolding basic_try_def basic_check_def
  by (intro steady_intros)

section \<open>Stopping the child\<close>

lemma stop_counts:
  "terminate_calls (stop p) = Suc (terminate_calls p) \<and>
   wait_calls (stop p) = Suc (wait_calls p) \<and>
   kill_calls (stop p) = (if on_terminate p = ExitsInTime then kill_calls p else Suc (kill_calls p)) \<and>
   \<not> running (stop p) \<and> env (stop p) = env p \<and> cmd (stop p) = cmd p"
  by (simp add: stop_def Let_def)

lemma run_child_stops:
  assumes "run_child h c = (r, q)"
  shows "\<exists>p. q = Some p \<and> terminate_calls p = 1 \<and> wait_calls p = 1 \<and>
           kill_calls p = (if child_term h = ExitsInTime then 0 else 1) \<and> \<not> running p \<and>
           env p = e2e_env (ambient h) \<and> cmd p = c"
proof -
  let ?p0 = "popen c (e2e_env (ambient h)) h"
  obtain r' p' where mt: "main_try ?p0 = (r', p')" by (cases "main_try ?p0")
  have "same_child ?p0 p'"
    using steady_main_try mt by (auto simp: steady_def dest: spec[of _ ?p0])
  then have f: "terminate_calls p' = 0" "wait_calls p' = 0" "kill_calls p' = 0"
    "on_terminate p' = child_term h" "env p' = e2e_env (ambient h)" "cmd p' = c"
    by (simp_all add: same_child_def popen_def)
  from assms mt have "q = Some (stop p')" by (simp add: run_child_def)
  with f stop_counts[of p'] show ?thesis by simp
qed

lemma main_stops_once:
  assumes "main h = (r, q)"
  shows "if has_cargo h \<or> binary_exists h
         then \<exists>p. q = Some p \<and> terminate_calls p = 1 \<and> wait_calls p = 1 \<and>
                kill_calls p = (if child_term h = ExitsInTime then 0 else 1) \<and> \<not> running p
         else q = None \<and> r = Raise (SystemExit 1)"
proof (cases "has_cargo h \<or> binary_exists h")
  case True
  then obtain c where "run_child h c = (r, q)"
    using assms by (auto simp: main_def split: if_splits)
  from run_child_stops[OF this] True show ?thesis by auto
next
  case False
  with assms show ?thesis by (auto simp: main_def)
qed

lemma test_stdio_rpc_stops:
  assumes "has_cargo h"
  shows "\<exists>p. terminate_calls p = 1 \<and> wait_calls p = 1 \<and> kill_calls p = 0 \<and>
           (if child_term h = NeverExits then test_stdio_rpc h = Blocks (Some p) \<and> running p
            else test_stdio_rpc h = Returns (Some p) \<and> \<not> running p)"
proof -
  let ?p0 = "popen [''cargo'', ''run'', ''-q'', ''-p'', ''openact-stdio''] basic_env h"
  obtain r' p' where bt: "basic_try ?p0 = (r', p')" by (cases "basic_try ?p0")
  have "same_child ?p0 p'"
    using steady_basic_try bt by (auto simp: steady_def dest: spec[of _ ?p0])
  then have f: "terminate_calls p' = 0" "wait_calls p' = 0" "kill_calls p' = 0"
    "on_terminate p' = child_term h" "running p'"
    by (simp_all add: same_child_def popen_def)
  show ?thesis
  proof (cases "child_term h = NeverExits")
    case True
    let ?q = "p'\<lparr>terminate_calls := Suc 0, wait_calls := Suc 0\<rparr>"
    have "test_stdio_rpc h = Blocks (Some ?q)"
      using assms bt f True by (simp add: test_stdio_rpc_def stop_basic_def Let_def)
    with True f show ?thesis by (intro exI[of _ ?q]) simp
  next
    case False
    let ?q = "p'\<lparr>terminate_calls := Suc 0, wait_calls := Suc 0, running := False\<rparr>"
    have "test_stdio_rpc h = Returns (Some ?q)"
      using assms bt f False by (simp add: test_stdio_rpc_def stop_basic_def Let_def)
    with False f show ?thesis by (intro exI[of _ ?q]) simp
  qed
qed

section \<open>Reading back what \<open>json.dumps\<close> writes\<close>

subsection \<open>Strings\<close>

lemma byte_char_of: "n < 256 \<Longrightarrow> byte (char_of n) = n"
  by (simp add: byte_def)

lemma char_of_byte: "char_of (byte c) = c"
  by (simp add: byte_def)

lemma byte_lt_256: "byte c < 256"
  by (simp add: byte_def)

lemma hex_val_hex_digit: "d < 16 \<Longrightarrow> hex_val (hex_digit d) = Some d"
  by (auto simp: hex_val_def hex_digit_def byte_char_of)

lemma code_points_Cons_low: "byte c < 192 \<Longrightarrow> code_points (c # cs) = byte c # code_points cs"
  by (cases cs) simp_all

lemma code_points_ascii: "ascii s \<Longrightarrow> code_points s = map byte s"
  by (induction s) (simp_all add: ascii_def code_points_Cons_low)

lemma hex4_small:
  assumes "n < 256"
  shows "hex4 n = [hex_digit 0, hex_digit 0, hex_digit (n div 16), hex_digit (n mod 16)]"
proof -
  have "n div 4096 = 0" "n div 256 = 0" "n div 16 < 16" using assms by simp_all
  then show ?thesis by (simp add: hex4_def)
qed

lemma hex4_val_small:
  assumes "n < 256"
  shows "hex4_val (hex_digit 0) (hex_digit 0) (hex_digit (n div 16)) (hex_digit (n mod 16)) = Some n"
proof -
  have "n div 16 < 16" using assms by simp
  then show ?thesis
    by (simp add: hex4_val_def hex_val_hex_digit)
qed

lemma surrogate_pair_small: "u < 55296 \<Longrightarrow> surrogate_pair u s = None"
  by (simp add: surrogate_pair_def split: list.splits)

lemma emit_Some: "emit t (Some (s, r)) = Some (t @ s, r)"
  by (simp add: emit_def)

lemma char_of_eq_lit: "n < 256 \<Longrightarrow> (char_of n = c) = (n = byte c)"
  by (simp add: char_of_eq_iff take_bit_eq_mod byte_def)

lemma parse_str_quote_escape:
  "parse_str (escape_cp 34 @ rest) = emit [CHR 0x22] (parse_str rest)"
  "parse_str (escape_cp 92 @ rest) = emit [CHR 0x5C] (parse_str rest)"
  "parse_str (escape_cp 8 @ rest) = emit [CHR 0x08] (parse_str rest)"
  "parse_str (escape_cp 12 @ rest) = emit [CHR 0x0C] (parse_str rest)"
  "parse_str (escape_cp 10 @ rest) = emit [CHR 0x0A] (parse_str rest)"
  "parse_str (escape_cp 13 @ rest) = emit [CHR 0x0D] (parse_str rest)"
  "parse_str (escape_cp 9 @ rest) = emit [CHR 0x09] (parse_str rest)"
  by (simp_all add: escape_cp_def unescape_def)

lemma parse_str_printable:
  assumes "32 \<le> n" "n \<le> 126" "n \<noteq> 34" "n \<noteq> 92"
  shows "parse_str (escape_cp n @ rest) = emit [char_of n] (parse_str rest)"
proof -
  have lt: "n < 256" using assms by simp
  have "char_of n \<noteq> CHR 0x22" "char_of n \<noteq> CHR 0x5C"
    using assms by (simp_all add: char_of_eq_lit[OF lt] byte_def)
  moreover have "\<not> byte (char_of n) < 32"
    using assms by (simp add: byte_char_of[OF lt])
  moreover have "escape_cp n = [char_of n]"
    using assms by (simp add: escape_cp_def)
  ultimately show ?thesis by simp
qed

lemma parse_str_u_escape:
  assumes "n < 32 \<or> n = 127" "n \<noteq> 8" "n \<noteq> 9" "n \<noteq> 10" "n \<noteq> 12" "n \<noteq> 13"
  shows "parse_str (escape_cp n @ rest) = emit [char_of n] (parse_str rest)"
proof -
  have lt: "n < 256" using assms by auto
  have e: "escape_cp n =
      [CHR 0x5C, CHR ''u'', hex_digit 0, hex_digit 0, hex_digit (n div 16), hex_digit (n mod 16)]"
    using assms by (auto simp: escape_cp_def hex4_small[OF lt])
  have s: "surrogate_pair n rest = None"
    using lt by (simp add: surrogate_pair_small)
  have u: "utf8_encode n = [char_of n]"
    using assms by (auto simp: utf8_encode_def)
  show ?thesis
    by (simp add: e hex4_val_small[OF lt] s u)
qed

lemma char_of_lits:
  "char_of (34::nat) = CHR 0x22" "char_of (92::nat) = CHR 0x5C" "char_of (8::nat) = CHR 0x08"
  "char_of (12::nat) = CHR 0x0C" "char_of (10::nat) = CHR 0x0A" "char_of (13::nat) = CHR 0x0D"
  "char_of (9::nat) = CHR 0x09"
  by (simp_all add: char_of_eq_lit byte_def)

lemma parse_str_escape:
  assumes "n < 128"
  shows "parse_str (escape_cp n @ rest) = emit [char_of n] (parse_str rest)"
proof -
  consider "n = 34" | "n = 92" | "n = 8" | "n = 12" | "n = 10" | "n = 13" | "n = 9"
    | "32 \<le> n \<and> n \<le> 126 \<and> n \<noteq> 34 \<and> n \<noteq> 92"
    | "(n < 32 \<or> n = 127) \<and> n \<noteq> 8 \<and> n \<noteq> 9 \<and> n \<noteq> 10 \<and> n \<noteq> 12 \<and> n \<noteq> 13"
    using assms by linarith
  then show ?thesis
    by cases
      (simp_all add: parse_str_quote_escape parse_str_printable parse_str_u_escape char_of_lits)
qed

lemma parse_str_body:
  assumes "ascii s"
  shows "parse_str (concat (map escape_cp (map byte s)) @ CHR 0x22 # rest) = Some (s, rest)"
  using assms
proof (induction s)
  case Nil
  then show ?case by simp
next
  case (Cons c s)
  then have lt: "byte c < 128" and as: "ascii s" by (simp_all add: ascii_def)
  have "parse_str (escape_cp (byte c) @ concat (map escape_cp (map byte s)) @ CHR 0x22 # rest)
        = emit [char_of (byte c)] (parse_str (concat (map escape_cp (map byte s)) @ CHR 0x22 # rest))"
    by (rule parse_str_escape[OF lt])
  with Cons.IH[OF as] show ?case
    by (simp add: emit_Some char_of_byte)
qed

lemma parse_dumps_str:
  "ascii s \<Longrightarrow> \<exists>body. dumps_str s = CHR 0x22 # body \<and> parse_str (body @ rest) = Some (s, rest)"
  by (simp add: dumps_str_def code_points_ascii parse_str_body del: map_map)

subsection \<open>Integers\<close>

lemma dec_small: "n < 10 \<Longrightarrow> dec n = [char_of (48 + n)]"
  by (subst dec.simps) simp

lemma dec_large: "\<not> n < 10 \<Longrightarrow> dec n = dec (n div 10) @ [char_of (48 + n mod 10)]"
  by (subst dec.simps) simp

lemma is_digit_char_of: "(d::nat) < 10 \<Longrightarrow> is_digit (char_of (48 + d))"
  by (simp add: is_digit_def byte_char_of)

lemma dec_digits: "list_all is_digit (dec n)"
proof (induction n rule: dec.induct)
  case (1 n)
  then show ?case
    by (cases "n < 10") (simp_all add: dec_small dec_large is_digit_char_of)
qed

lemma dec_nonempty: "dec n \<noteq> []"
  by (cases "n < 10") (simp_all add: dec_small dec_large)

lemma digits_val_snoc: "digits_val (ds @ [c]) = 10 * digits_val ds + (byte c - 48)"
  by (simp add: digits_val_def)

lemma digits_val_dec: "digits_val (dec n) = n"
proof (induction n rule: dec.induct)
  case (1 n)
  then show ?case
    by (cases "n < 10")
       (simp_all add: dec_small dec_large digits_val_snoc digits_val_def byte_char_of)
qed

lemma hd_dec_zero: "hd (dec n) = CHR ''0'' \<Longrightarrow> n = 0"
proof (induction n rule: dec.induct)
  case (1 n)
  show ?case
  proof (cases "n < 10")
    case True
    with 1(2) have "char_of (48 + n) = CHR ''0''" by (simp add: dec_small)
    with True show ?thesis by (simp add: char_of_eq_lit byte_def)
  next
    case False
    with 1(2) have "hd (dec (n div 10)) = CHR ''0''"
      by (simp add: dec_large dec_nonempty)
    with 1(1) False have "n div 10 = 0" by simp
    with False show ?thesis by simp
  qed
qed

lemma takeWhile_digits:
  assumes "list_all is_digit ds" "ends_number rest"
  shows "takeWhile is_digit (ds @ rest) = ds"
proof -
  have "takeWhile is_digit rest = []"
    using assms(2) by (cases rest) (simp_all add: ends_number_def)
  with assms(1) show ?thesis
    by (simp add: takeWhile_append2 list_all_iff)
qed

lemma frac_exp_none: "ends_number rest \<Longrightarrow> frac_part rest = [] \<and> exp_part rest = []"
  by (auto simp: ends_number_def frac_part_def exp_part_def split: list.splits)

lemma int_part_digits:
  assumes ne: "ds \<noteq> []" and dg: "list_all is_digit ds"
    and z: "hd ds = CHR ''0'' \<longrightarrow> ds = [CHR ''0'']" and en: "ends_number rest"
  shows "int_part (ds @ rest) = ds"
proof -
  from ne obtain d r0 where ds: "ds = d # r0" by (cases ds) auto
  with dg have d: "is_digit d" and r0: "list_all is_digit r0" by simp_all
  show ?thesis
    using z d takeWhile_digits[OF r0 en] by (auto simp: int_part_def ds)
qed

lemma parse_number_digits:
  assumes ne: "ds \<noteq> []" and dg: "list_all is_digit ds"
    and z: "hd ds = CHR ''0'' \<longrightarrow> ds = [CHR ''0'']" and en: "ends_number rest"
  shows "parse_number F (ds @ rest) = Some (JInt (int (digits_val ds)), rest)"
    and "parse_number F (CHR ''-'' # ds @ rest) = Some (JInt (- int (digits_val ds)), rest)"
proof -
  from ne dg have "is_digit (hd ds)" by (cases ds) simp_all
  then have nm: "hd ds \<noteq> CHR ''-''" by (auto simp: is_digit_def byte_def)
  note ip = int_part_digits[OF ne dg z en]
  note fe = frac_exp_none[OF en]
  show "parse_number F (ds @ rest) = Some (JInt (int (digits_val ds)), rest)"
    using ne nm by (simp add: parse_number_def Let_def ip fe)
  show "parse_number F (CHR ''-'' # ds @ rest) = Some (JInt (- int (digits_val ds)), rest)"
    using ne by (simp add: parse_number_def Let_def ip fe)
qed

lemma parse_number_dumps_int:
  assumes "ends_number rest"
  shows "parse_number F (dumps_int i @ rest) = Some (JInt i, rest)"
proof -
  have z: "hd (dec n) = CHR ''0'' \<longrightarrow> dec n = [CHR ''0'']" for n
    using hd_dec_zero[of n] by (auto simp: dec_small char_of_eq_lit byte_def)
  show ?thesis
    using parse_number_digits[OF dec_nonempty dec_digits z assms, where F = F]
    by (simp add: dumps_int_def digits_val_dec)
qed

subsection \<open>Lists and dictionaries\<close>

lemma starter_not:
  assumes "starter c"
  shows "\<not> is_ws c" "c \<noteq> CHR '']''" "c \<noteq> CHR ''}''" "c \<noteq> CHR '',''" "c \<noteq> CHR '':''"
  using assms by (auto simp: starter_def is_ws_def is_digit_def byte_def)

lemma skip_ws_Cons: "\<not> is_ws c \<Longrightarrow> skip_ws (c # r) = c # r"
  by (simp add: skip_ws_def)

lemma skip_ws_space: "skip_ws (CHR '' '' # r) = skip_ws r"
  by (simp add: skip_ws_def is_ws_def)

lemma hd_dec_digit: "\<exists>d r. dec n = d # r \<and> is_digit d"
  using dec_nonempty[of n] dec_digits[of n] by (cases "dec n") auto

lemma dumps_starts:
  assumes "plain v"
  shows "\<exists>c r. json_dumps R v = c # r \<and> starter c"
proof (cases v)
  case (JInt i)
  then show ?thesis
    using hd_dec_digit[of "nat i"] hd_dec_digit[of "nat (- i)"]
    by (auto simp: dumps_int_def starter_def)
qed (use assms in \<open>auto simp: starter_def dumps_str_def\<close>)

lemma dict_put_fresh: "k \<notin> fst ` set d \<Longrightarrow> dict_put k v d = d @ [(k, v)]"
  by (induction d) auto

lemma dict_of_pairs_distinct_aux:
  "distinct (map fst (d @ ps)) \<Longrightarrow>
   foldl (\<lambda>d kv. dict_put (fst kv) (snd kv) d) d ps = d @ ps"
proof (induction ps arbitrary: d)
  case Nil
  then show ?case by simp
next
  case (Cons kv ps)
  then have "fst kv \<notin> fst ` set d" by auto
  then have "dict_put (fst kv) (snd kv) d = d @ [kv]" by (simp add: dict_put_fresh)
  moreover have "distinct (map fst ((d @ [kv]) @ ps))" using Cons.prems by simp
  ultimately show ?case using Cons.IH[of "d @ [kv]"] by simp
qed

lemma dict_of_pairs_distinct: "distinct (map fst ps) \<Longrightarrow> dict_of_pairs ps = ps"
  using dict_of_pairs_distinct_aux[of "[]" ps] by (simp add: dict_of_pairs_def)

lemma ends_number_delims:
  "ends_number (CHR '']'' # r)" "ends_number (CHR ''}'' # r)" "ends_number (CHR '','' # r)"
  "ends_number []" "ends_number (CHR 0x0A # r)"
  by (simp_all add: ends_number_def is_digit_def byte_def)

lemma pv_str:
  "parse_value F (Suc n) (CHR 0x22 # r) =
     (case parse_str r of None \<Rightarrow> None | Some (t, r') \<Rightarrow> Some (JStr t, r'))"
  by simp

lemma pv_leaf:
  assumes "c \<noteq> CHR 0x22" "c \<noteq> CHR ''{''" "c \<noteq> CHR ''[''"
  shows "parse_value F (Suc n) (c # r) =
     (if starts_with ''null'' (c # r) then Some (JNull, drop 4 (c # r))
      else if starts_with ''true'' (c # r) then Some (JBool True, drop 4 (c # r))
      else if starts_with ''false'' (c # r) then Some (JBool False, drop 5 (c # r))
      else (case parse_number F (c # r) of
              Some x \<Rightarrow> Some x
            | None \<Rightarrow>
               if starts_with ''NaN'' (c # r) then Some (JFloat NaN, drop 3 (c # r))
               else if starts_with ''Infinity'' (c # r) then Some (JFloat PosInf, drop 8 (c # r))
               else if starts_with ''-Infinity'' (c # r) then Some (JFloat NegInf, drop 9 (c # r))
               else None))"
  using assms by simp

lemma pv_null: "parse_value F (Suc n) (''null'' @ rest) = Some (JNull, rest)"
  by (simp add: starts_with_def)

lemma pv_true: "parse_value F (Suc n) (''true'' @ rest) = Some (JBool True, rest)"
  by (simp add: starts_with_def)

lemma pv_false: "parse_value F (Suc n) (''false'' @ rest) = Some (JBool False, rest)"
  by (simp add: starts_with_def)

lemma dumps_int_starts: "\<exists>c r. dumps_int i = c # r \<and> (c = CHR ''-'' \<or> is_digit c)"
proof (cases "i < 0")
  case True
  then show ?thesis by (simp add: dumps_int_def)
next
  case False
  with hd_dec_digit[of "nat i"] show ?thesis by (auto simp: dumps_int_def)
qed

lemma pv_int:
  assumes "ends_number rest"
  shows "parse_value F (Suc n) (dumps_int i @ rest) = Some (JInt i, rest)"
proof -
  obtain c r0 where c0: "dumps_int i = c # r0" and d: "c = CHR ''-'' \<or> is_digit c"
    using dumps_int_starts[of i] by blast
  define r where "r = r0 @ rest"
  have cr: "dumps_int i @ rest = c # r" by (simp add: c0 r_def)
  from d have n: "c \<noteq> CHR 0x22" "c \<noteq> CHR ''{''" "c \<noteq> CHR ''[''" "c \<noteq> CHR ''n''"
    "c \<noteq> CHR ''t''" "c \<noteq> CHR ''f''"
    by (auto simp: is_digit_def byte_def)
  have "parse_number F (c # r) = Some (JInt i, rest)"
    using parse_number_dumps_int[OF assms, of F i] cr by simp
  with n show ?thesis
    unfolding cr by (simp add: pv_leaf starts_with_def del: parse_value.simps)
qed

lemma pv_dumps_str:
  assumes "ascii s"
  shows "parse_value F (Suc n) (dumps_str s @ rest) = Some (JStr s, rest)"
proof -
  from parse_dumps_str[OF assms, of rest] obtain body where
    b: "dumps_str s = CHR 0x22 # body" and p: "parse_str (body @ rest) = Some (s, rest)" by blast
  show ?thesis unfolding b using p by simp
qed

lemma reads_backD:
  "reads_back F R v \<Longrightarrow> fuel_need v \<le> n \<Longrightarrow> ends_number rest \<Longrightarrow>
   parse_value F n (json_dumps R v @ rest) = Some (v, rest)"
  by (simp add: reads_back_def)

lemma skip_ws_dumps:
  assumes "plain v"
  shows "skip_ws (json_dumps R v @ rest) = json_dumps R v @ rest"
    and "skip_ws (CHR '' '' # json_dumps R v @ rest) = json_dumps R v @ rest"
proof -
  from dumps_starts[OF assms, of R] obtain c r where cr: "json_dumps R v = c # r" and st: "starter c"
    by blast
  show "skip_ws (json_dumps R v @ rest) = json_dumps R v @ rest"
    using starter_not(1)[OF st] by (simp add: cr skip_ws_Cons)
  then show "skip_ws (CHR '' '' # json_dumps R v @ rest) = json_dumps R v @ rest"
    by (simp add: skip_ws_space)
qed

lemma skip_ws_delims:
  "skip_ws (CHR '']'' # r) = CHR '']'' # r" "skip_ws (CHR ''}'' # r) = CHR ''}'' # r"
  "skip_ws (CHR '','' # r) = CHR '','' # r" "skip_ws (CHR '':'' # r) = CHR '':'' # r"
  "skip_ws (CHR 0x22 # r) = CHR 0x22 # r"
  by (simp_all add: skip_ws_def is_ws_def)

lemma parse_elems_dumps:
  assumes "xs \<noteq> []" and "\<forall>x\<in>set xs. plain x \<and> reads_back F R x"
    and "sum_list (map (\<lambda>x. Suc (fuel_need x)) xs) \<le> n"
  shows "parse_elems F n (join '', '' (map (json_dumps R) xs) @ CHR '']'' # rest) = Some (xs, rest)"
  using assms
proof (induction xs arbitrary: n)
  case Nil
  then show ?case by simp
next
  case (Cons x xs)
  from Cons.prems(3) obtain m where n: "n = Suc m" and fx: "fuel_need x \<le> m"
    and fs: "sum_list (map (\<lambda>x. Suc (fuel_need x)) xs) \<le> m"
    by (cases n) auto
  from Cons.prems(2) have px: "plain x" and rx: "reads_back F R x" by simp_all
  show ?case
  proof (cases xs)
    case Nil
    have "parse_value F m (json_dumps R x @ CHR '']'' # rest) = Some (x, CHR '']'' # rest)"
      by (rule reads_backD[OF rx fx]) (rule ends_number_delims)
    then show ?thesis
      by (simp add: n Nil skip_ws_delims)
  next
    case (Cons y ys)
    define tail where "tail = join '', '' (map (json_dumps R) (y # ys)) @ CHR '']'' # rest"
    have j: "join '', '' (map (json_dumps R) (x # xs)) @ CHR '']'' # rest
             = json_dumps R x @ CHR '','' # CHR '' '' # tail"
      by (simp add: Cons tail_def)
    have v: "parse_value F m (json_dumps R x @ CHR '','' # CHR '' '' # tail)
             = Some (x, CHR '','' # CHR '' '' # tail)"
      by (rule reads_backD[OF rx fx]) (rule ends_number_delims)
    have py: "plain y" using Cons.prems(2) Cons by simp
    have sk: "skip_ws (CHR '' '' # tail) = tail"
    proof (cases ys)
      case Nil
      then show ?thesis using skip_ws_dumps(2)[OF py, of R] by (simp add: tail_def)
    next
      case (Cons z zs)
      then show ?thesis using skip_ws_dumps(2)[OF py, of R] by (simp add: tail_def)
    qed
    have ih: "parse_elems F m tail = Some (xs, rest)"
      using Cons.IH[of m] Cons.prems(2) fs Cons by (simp add: tail_def)
    show ?thesis
      unfolding j n
      by (simp add: v skip_ws_delims sk ih)
  qed
qed

lemma parse_str_tl_dumps:
  assumes "ascii s"
  shows "dumps_str s = CHR 0x22 # tl (dumps_str s)"
    and "parse_str (tl (dumps_str s) @ rest) = Some (s, rest)"
proof -
  from parse_dumps_str[OF assms, of rest] obtain body where
    b: "dumps_str s = CHR 0x22 # body" and p: "parse_str (body @ rest) = Some (s, rest)" by blast
  from b show "dumps_str s = CHR 0x22 # tl (dumps_str s)" by simp
  from b p show "parse_str (tl (dumps_str s) @ rest) = Some (s, rest)" by simp
qed

lemma parse_members_dumps:
  assumes "kvs \<noteq> []"
    and "\<forall>kv\<in>set kvs. ascii (fst kv) \<and> plain (snd kv) \<and> reads_back F R (snd kv)"
    and "sum_list (map (\<lambda>kv. Suc (fuel_need (snd kv))) kvs) \<le> n"
  shows "\<exists>t. join '', '' (map (member_text R) kvs) = CHR 0x22 # t \<and>
             parse_members F n (t @ CHR ''}'' # rest) = Some (kvs, rest)"
  using assms
proof (induction kvs arbitrary: n)
  case Nil
  then show ?case by simp
next
  case (Cons kv kvs)
  obtain k v where kv: "kv = (k, v)" by (cases kv)
  from Cons.prems(3) obtain m where n: "n = Suc m" and fx: "fuel_need v \<le> m"
    and fs: "sum_list (map (\<lambda>kv. Suc (fuel_need (snd kv))) kvs) \<le> m"
    by (cases n) (auto simp: kv)
  from Cons.prems(2) have ak: "ascii k" and pv: "plain v" and rv: "reads_back F R v"
    by (simp_all add: kv)
  define body where "body = tl (dumps_str k)"
  have dk: "dumps_str k = CHR 0x22 # body"
    using parse_str_tl_dumps(1)[OF ak] by (simp add: body_def)
  have pk: "parse_str (body @ r) = Some (k, r)" for r
    using parse_str_tl_dumps(2)[OF ak] by (simp add: body_def)
  show ?case
  proof (cases kvs)
    case Nil
    have j: "join '', '' (map (member_text R) (kv # kvs))
             = CHR 0x22 # body @ CHR '':'' # CHR '' '' # json_dumps R v"
      by (simp add: Nil kv member_text_def dk)
    have val: "parse_value F m (json_dumps R v @ CHR ''}'' # rest) = Some (v, CHR ''}'' # rest)"
      by (rule reads_backD[OF rv fx]) (rule ends_number_delims)
    have "parse_members F (Suc m)
            ((body @ CHR '':'' # CHR '' '' # json_dumps R v) @ CHR ''}'' # rest)
          = Some ([(k, v)], rest)"
      using pk[of "CHR '':'' # CHR '' '' # json_dumps R v @ CHR ''}'' # rest"]
      by (simp add: skip_ws_delims skip_ws_dumps(2)[OF pv] val)
    with j show ?thesis by (simp add: n Nil kv)
  next
    case (Cons kv2 kvs2)
    have ne: "kvs \<noteq> []" using Cons by simp
    from Cons.IH[OF ne _ fs] Cons.prems(2) obtain t where
      t: "join '', '' (map (member_text R) kvs) = CHR 0x22 # t"
      and pt: "parse_members F m (t @ CHR ''}'' # rest) = Some (kvs, rest)"
      by auto
    have j: "join '', '' (map (member_text R) (kv # kvs))
             = CHR 0x22 # body @ CHR '':'' # CHR '' '' # json_dumps R v
               @ CHR '','' # CHR '' '' # CHR 0x22 # t"
      using t by (simp add: Cons kv member_text_def dk)
    define tail where "tail = CHR '','' # CHR '' '' # CHR 0x22 # t @ CHR ''}'' # rest"
    have val: "parse_value F m (json_dumps R v @ tail) = Some (v, tail)"
      unfolding tail_def by (rule reads_backD[OF rv fx]) (rule ends_number_delims)
    have "parse_members F (Suc m) (body @ CHR '':'' # CHR '' '' # json_dumps R v @ tail)
          = Some ((k, v) # kvs, rest)"
      using pk[of "CHR '':'' # CHR '' '' # json_dumps R v @ tail"]
      by (simp add: skip_ws_delims skip_ws_dumps(2)[OF pv] val)
         (simp add: tail_def skip_ws_delims skip_ws_space pt)
    then show ?thesis
      unfolding j n tail_def
      by (intro exI[of _ "body @ CHR '':'' # CHR '' '' # json_dumps R v
               @ CHR '','' # CHR '' '' # CHR 0x22 # t"])
         (simp add: kv)
  qed
qed

lemma reads_back_plain: "plain v \<Longrightarrow> reads_back F R v"
proof (induction v)
  case JNull
  show ?case
    unfolding reads_back_def
  proof (intro allI impI)
    fix n rest assume "fuel_need JNull \<le> n"
    then obtain m where "n = Suc m" by (cases n) auto
    then show "parse_value F n (json_dumps R JNull @ rest) = Some (JNull, rest)"
      using pv_null[of F m rest] by simp
  qed
next
  case (JBool b)
  show ?case
    unfolding reads_back_def
  proof (intro allI impI)
    fix n rest assume "fuel_need (JBool b) \<le> n"
    then obtain m where "n = Suc m" by (cases n) auto
    then show "parse_value F n (json_dumps R (JBool b) @ rest) = Some (JBool b, rest)"
      using pv_true[of F m rest] pv_false[of F m rest] by (cases b) simp_all
  qed
next
  case (JInt i)
  show ?case
    unfolding reads_back_def
  proof (intro allI impI)
    fix n rest assume "fuel_need (JInt i) \<le> n" and en: "ends_number rest"
    then obtain m where "n = Suc m" by (cases n) auto
    then show "parse_value F n (json_dumps R (JInt i) @ rest) = Some (JInt i, rest)"
      using pv_int[OF en, of F m i] by simp
  qed
next
  case (JFloat f)
  then show ?case by simp
next
  case (JStr s)
  then have a: "ascii s" by simp
  show ?case
    unfolding reads_back_def
  proof (intro allI impI)
    fix n rest assume "fuel_need (JStr s) \<le> n"
    then obtain m where "n = Suc m" by (cases n) auto
    then show "parse_value F n (json_dumps R (JStr s) @ rest) = Some (JStr s, rest)"
      using pv_dumps_str[OF a, of F m rest] by simp
  qed
next
  case (JArr xs)
  then have all: "\<forall>x\<in>set xs. plain x \<and> reads_back F R x"
    by (auto simp: list_all_iff)
  show ?case
    unfolding reads_back_def
  proof (intro allI impI)
    fix n rest assume f: "fuel_need (JArr xs) \<le> n"
    then obtain m where n: "n = Suc m"
      and fm: "sum_list (map (\<lambda>x. Suc (fuel_need x)) xs) \<le> m" by (cases n) auto
    show "parse_value F n (json_dumps R (JArr xs) @ rest) = Some (JArr xs, rest)"
    proof (cases xs)
      case Nil
      then show ?thesis by (simp add: n skip_ws_delims)
    next
      case (Cons y ys)
      then have ne: "xs \<noteq> []" by simp
      define body where "body = join '', '' (map (json_dumps R) xs) @ CHR '']'' # rest"
      have pe: "parse_elems F m body = Some (xs, rest)"
        unfolding body_def by (rule parse_elems_dumps[OF ne all fm])
      have py: "plain y" using all Cons by simp
      from dumps_starts[OF py, of R] obtain c r where cr: "json_dumps R y = c # r"
        and st: "starter c" by blast
      have "\<exists>r'. body = c # r'"
        by (cases ys) (simp_all add: body_def Cons cr)
      then obtain r' where b: "body = c # r'" by blast
      have "parse_value F (Suc m) (CHR ''['' # body) = Some (JArr xs, rest)"
        using pe starter_not[OF st] by (simp add: b skip_ws_Cons)
      then show ?thesis by (simp add: n body_def)
    qed
  qed
next
  case (JObj kvs)
  have all: "\<forall>kv\<in>set kvs. ascii (fst kv) \<and> plain (snd kv) \<and> reads_back F R (snd kv)"
  proof
    fix kv assume m: "kv \<in> set kvs"
    with JObj.prems have a: "ascii (fst kv)" and p: "plain (snd kv)"
      by (auto simp: list_all_iff)
    have "snd kv \<in> Basic_BNFs.snds kv" by (cases kv) simp
    from JObj.IH[OF m this p] a p
    show "ascii (fst kv) \<and> plain (snd kv) \<and> reads_back F R (snd kv)" by simp
  qed
  from JObj.prems have dist: "distinct (map fst kvs)" by simp
  show ?case
    unfolding reads_back_def
  proof (intro allI impI)
    fix n rest assume f: "fuel_need (JObj kvs) \<le> n"
    then obtain m where n: "n = Suc m"
      and fm: "sum_list (map (\<lambda>kv. Suc (fuel_need (snd kv))) kvs) \<le> m" by (cases n) auto
    show "parse_value F n (json_dumps R (JObj kvs) @ rest) = Some (JObj kvs, rest)"
    proof (cases "kvs = []")
      case True
      then show ?thesis by (simp add: n skip_ws_delims)
    next
      case False
      from parse_members_dumps[OF False all fm, of rest] obtain t where
        t: "join '', '' (map (member_text R) kvs) = CHR 0x22 # t"
        and pm: "parse_members F m (t @ CHR ''}'' # rest) = Some (kvs, rest)" by blast
      have j: "json_dumps R (JObj kvs) @ rest = CHR ''{'' # CHR 0x22 # t @ CHR ''}'' # rest"
        using t by (simp add: member_text_def[abs_def])
      show ?thesis
        unfolding j n using pm by (simp add: skip_ws_delims dict_of_pairs_distinct[OF dist])
    qed
  qed
qed

lemma join_length_bound:
  assumes "\<forall>x\<in>set xs. f x \<le> length (g x)"
  shows "sum_list (map (\<lambda>x. Suc (f x)) xs) \<le> Suc (length (join '', '' (map g xs)))"
  using assms
proof (induction xs)
  case Nil
  then show ?case by simp
next
  case (Cons x xs)
  then show ?case by (cases xs) auto
qed

lemma dumps_int_nonempty: "dumps_int i \<noteq> []"
  by (simp add: dumps_int_def dec_nonempty)

lemma fuel_le_length: "plain v \<Longrightarrow> fuel_need v \<le> length (json_dumps R v)"
proof (induction v)
  case (JInt i)
  then show ?case
    using dumps_int_nonempty[of i] by (cases "dumps_int i") simp_all
next
  case (JArr xs)
  then have "\<forall>x\<in>set xs. fuel_need x \<le> length (json_dumps R x)"
    by (auto simp: list_all_iff)
  from join_length_bound[OF this] show ?case by simp
next
  case (JObj kvs)
  have "\<forall>kv\<in>set kvs. fuel_need (snd kv) \<le> length (member_text R kv)"
  proof
    fix kv assume m: "kv \<in> set kvs"
    with JObj.prems have p: "plain (snd kv)" by (auto simp: list_all_iff)
    have "snd kv \<in> Basic_BNFs.snds kv" by (cases kv) simp
    from JObj.IH[OF m this p] show "fuel_need (snd kv) \<le> length (member_text R kv)"
      by (simp add: member_text_def)
  qed
  from join_length_bound[OF this] show ?case by (simp add: member_text_def[abs_def])
qed (simp_all add: dumps_str_def)

lemma json_loads_dumps:
  assumes "plain v"
  shows "json_loads F (json_dumps R v) = Some v"
proof -
  have sk: "skip_ws (json_dumps R v) = json_dumps R v"
    using skip_ws_dumps(1)[OF assms, of R "[]"] by simp
  have "parse_value F (Suc (length (json_dumps R v))) (json_dumps R v @ []) = Some (v, [])"
    by (rule reads_backD[OF reads_back_plain[OF assms]])
       (use fuel_le_length[OF assms, of R] in \<open>simp_all add: ends_number_delims\<close>)
  then have pv: "parse_value F (Suc (length (json_dumps R v))) (json_dumps R v) = Some (v, [])"
    by (simp only: append_Nil2)
  have e: "skip_ws [] = []" by (simp add: skip_ws_def)
  show ?thesis
    unfolding json_loads_def sk pv by (simp add: e)
qed

subsection \<open>The written line and \<open>strip\<close>\<close>

lemma ascii_append: "ascii (a @ b) = (ascii a \<and> ascii b)"
  by (simp add: ascii_def)

lemma ascii_Cons: "ascii (c # s) = (byte c < 128 \<and> ascii s)"
  by (simp add: ascii_def)

lemma ascii_Nil: "ascii []"
  by (simp add: ascii_def)

lemma hex_digit_ascii: "d < 16 \<Longrightarrow> byte (hex_digit d) < 128"
  by (auto simp: hex_digit_def byte_char_of)

lemma escape_cp_ascii:
  assumes "n < 128"
  shows "ascii (escape_cp n)"
proof -
  have lt: "n < 256" using assms by simp
  have b: "byte (CHR 0x5C) < 128" "byte (CHR ''u'') < 128" by (simp_all add: byte_def)
  consider "n = 34" | "n = 92" | "n = 8" | "n = 12" | "n = 10" | "n = 13" | "n = 9"
    | "32 \<le> n \<and> n \<le> 126 \<and> n \<noteq> 34 \<and> n \<noteq> 92"
    | "(n < 32 \<or> n = 127) \<and> n \<noteq> 8 \<and> n \<noteq> 9 \<and> n \<noteq> 10 \<and> n \<noteq> 12 \<and> n \<noteq> 13"
    using assms by linarith
  then show ?thesis
  proof cases
    case 8
    then have "escape_cp n = [char_of n]" by (simp add: escape_cp_def)
    then show ?thesis using assms by (simp add: ascii_def byte_char_of[OF lt])
  next
    case 9
    then have "escape_cp n =
      [CHR 0x5C, CHR ''u'', hex_digit 0, hex_digit 0, hex_digit (n div 16), hex_digit (n mod 16)]"
      by (auto simp: escape_cp_def hex4_small[OF lt])
    moreover have "n div 16 < 16" using lt by simp
    ultimately show ?thesis
      using b by (simp add: ascii_def hex_digit_ascii)
  qed (simp_all add: escape_cp_def ascii_def byte_def)
qed

lemma dumps_str_ascii: "ascii s \<Longrightarrow> ascii (dumps_str s)"
proof -
  assume a: "ascii s"
  have "ascii (concat (map escape_cp (map byte t)))" if "ascii t" for t
    using that by (induction t) (simp_all add: ascii_Nil ascii_Cons ascii_append escape_cp_ascii)
  from this[OF a] show ?thesis
    by (simp add: dumps_str_def code_points_ascii[OF a] ascii_Cons ascii_append ascii_Nil byte_def
          del: map_map)
qed

lemma digits_ascii: "list_all is_digit ds \<Longrightarrow> ascii ds"
  by (induction ds) (auto simp: ascii_def is_digit_def)

lemma dumps_int_ascii: "ascii (dumps_int i)"
  using digits_ascii[OF dec_digits]
  by (simp add: dumps_int_def ascii_Cons byte_def)

lemma join_ascii: "\<forall>x\<in>set xs. ascii x \<Longrightarrow> ascii (join '', '' xs)"
proof (induction xs)
  case Nil
  then show ?case by (simp add: ascii_Nil)
next
  case (Cons x xs)
  then show ?case
    by (cases xs) (simp_all add: ascii_append ascii_Cons byte_def)
qed

lemma dumps_ascii: "plain v \<Longrightarrow> ascii (json_dumps R v)"
proof (induction v)
  case (JArr xs)
  then have "\<forall>x\<in>set (map (json_dumps R) xs). ascii x" by (auto simp: list_all_iff)
  from join_ascii[OF this] show ?case
    by (simp add: ascii_append ascii_Cons ascii_Nil byte_def)
next
  case (JObj kvs)
  have "\<forall>x\<in>set (map (member_text R) kvs). ascii x"
  proof -
    have "ascii (member_text R kv)" if m: "kv \<in> set kvs" for kv
    proof -
      from m JObj.prems have a: "ascii (fst kv)" and p: "plain (snd kv)"
        by (auto simp: list_all_iff)
      have "snd kv \<in> Basic_BNFs.snds kv" by (cases kv) simp
      from JObj.IH[OF m this p] dumps_str_ascii[OF a] show ?thesis
        by (simp add: member_text_def ascii_append ascii_Cons byte_def)
    qed
    then show ?thesis by simp
  qed
  from join_ascii[OF this] show ?case
    by (simp add: ascii_append ascii_Cons ascii_Nil byte_def member_text_def[abs_def])
qed (simp_all add: ascii_Cons ascii_Nil byte_def dumps_int_ascii dumps_str_ascii)

lemma utf8_chars_ascii: "ascii s \<Longrightarrow> utf8_chars s = map (\<lambda>c. [c]) s"
proof (induction s)
  case Nil
  then show ?case by simp
next
  case (Cons c s)
  then have a: "ascii s" by (simp add: ascii_Cons)
  have "takeWhile is_cont s = [] \<and> dropWhile is_cont s = s"
    using a by (cases s) (auto simp: ascii_Cons is_cont_def byte_def)
  with Cons.IH[OF a] show ?case by simp
qed

lemma is_space_single: "is_space [c] = is_space_cp (byte c)"
  by (simp add: is_space_def)

lemma concat_singletons: "concat (map (\<lambda>c. [c]) s) = s"
  by (induction s) simp_all

lemma py_strip_line:
  assumes a: "ascii d" and ne: "d \<noteq> []"
    and f: "\<not> is_space_cp (byte (hd d))" and l: "\<not> is_space_cp (byte (last d))"
  shows "py_strip (d @ [CHR 0x0A]) = d"
proof -
  let ?f = "\<lambda>c::char. [c]"
  have al: "ascii (d @ [CHR 0x0A])" using a by (simp add: ascii_append ascii_Cons ascii_Nil byte_def)
  from ne obtain c r where d: "d = c # r" by (cases d) auto
  have front: "dropWhile is_space (map ?f (d @ [CHR 0x0A])) = map ?f (d @ [CHR 0x0A])"
    using f by (simp add: d is_space_single)
  from ne obtain r' z where d': "d = r' @ [z]" by (cases d rule: rev_cases) auto
  have nl: "is_space [CHR 0x0A]" by (simp add: is_space_single is_space_cp_def byte_def)
  have nz: "\<not> is_space [z]" using l by (simp add: d' is_space_single)
  have bk: "dropWhile is_space (rev (map ?f (d @ [CHR 0x0A]))) = rev (map ?f d)"
    using nl nz by (simp add: d' rev_map)
  show ?thesis
    unfolding py_strip_def utf8_chars_ascii[OF al] front bk
    by (simp add: concat_singletons)
qed

lemma starter_not_space: "starter c \<Longrightarrow> \<not> is_space_cp (byte c)"
  by (auto simp: starter_def is_space_cp_def is_digit_def byte_def)

lemma last_digits: "ds \<noteq> [] \<Longrightarrow> list_all is_digit ds \<Longrightarrow> is_digit (last ds)"
  by (induction ds) (auto split: if_splits)

lemma dumps_last:
  assumes "plain v"
  shows "\<not> is_space_cp (byte (last (json_dumps R v)))"
proof (cases v)
  case (JInt i)
  have "is_digit (last (dumps_int i))"
    using last_digits[OF dec_nonempty dec_digits] by (simp add: dumps_int_def dec_nonempty)
  then show ?thesis by (simp add: JInt is_space_cp_def is_digit_def)
qed (use assms in \<open>simp_all add: is_space_cp_def byte_def dumps_str_def\<close>)

lemma py_strip_encode_line:
  assumes "plain v"
  shows "py_strip (encode_line R v) = json_dumps R v"
proof -
  from dumps_starts[OF assms, of R] obtain c r where cr: "json_dumps R v = c # r"
    and st: "starter c" by blast
  have "\<not> is_space_cp (byte (hd (json_dumps R v)))"
    using starter_not_space[OF st] by (simp add: cr)
  with dumps_ascii[OF assms, of R] dumps_last[OF assms, of R] cr show ?thesis
    unfolding encode_line_def by (intro py_strip_line) simp_all
qed

lemma decode_encode_plain:
  assumes "plain v"
  shows "decode_line F (encode_line R v) = Some v"
  by (simp add: decode_line_def py_strip_encode_line[OF assms] json_loads_dumps[OF assms])

section \<open>The bound on nested calls never decides the result of \<open>json.loads\<close>\<close>

lemma emit_SomeD: "emit t res = Some (s, r) \<Longrightarrow> \<exists>s'. res = Some (s', r)"
  by (auto simp: emit_def split: option.splits)

lemma parse_str_step:
  assumes "parse_str (c # cs) = Some (t, r)"
  shows "(c = CHR 0x22 \<and> r = cs) \<or> (\<exists>u s'. parse_str u = Some (s', r) \<and> length u \<le> length cs)"
proof (cases "c = CHR 0x22")
  case True
  with assms show ?thesis by simp
next
  case nq: False
  show ?thesis
  proof (cases "c = CHR 0x5C")
    case False
    with nq assms obtain s' where "parse_str cs = Some (s', r)"
      by (auto split: if_splits dest!: emit_SomeD)
    then show ?thesis by blast
  next
    case bs: True
    show ?thesis
    proof (cases cs)
      case Nil
      with nq bs assms show ?thesis by simp
    next
      case (Cons e r0)
      show ?thesis
      proof (cases "e = CHR ''u''")
        case False
        with nq bs Cons assms obtain s' where "parse_str r0 = Some (s', r)"
          by (auto split: option.splits dest!: emit_SomeD)
        moreover have "length r0 \<le> length cs" by (simp add: Cons)
        ultimately show ?thesis by blast
      next
        case u: True
        from nq bs Cons u assms obtain a1 a2 a3 a4 r4 uu where r0: "r0 = a1 # a2 # a3 # a4 # r4"
          and hv: "hex4_val a1 a2 a3 a4 = Some uu"
          by (auto split: list.splits option.splits)
        have e: "parse_str (c # cs) =
            (case surrogate_pair uu r4 of
               Some n \<Rightarrow> emit (utf8_encode n) (parse_str (drop 6 r4))
             | None \<Rightarrow> emit (utf8_encode uu) (parse_str r4))"
          using nq bs u hv by (simp add: Cons r0)
        show ?thesis
        proof (cases "surrogate_pair uu r4")
          case None
          with e assms obtain s' where "parse_str r4 = Some (s', r)"
            by (auto dest!: emit_SomeD)
          moreover have "length r4 \<le> length cs" by (simp add: Cons r0)
          ultimately show ?thesis by blast
        next
          case (Some n)
          with e assms obtain s' where "parse_str (drop 6 r4) = Some (s', r)"
            by (auto dest!: emit_SomeD)
          moreover have "length (drop 6 r4) \<le> length cs" by (simp add: Cons r0)
          ultimately show ?thesis by blast
        qed
      qed
    qed
  qed
qed

lemma parse_str_shorter: "parse_str s = Some (t, r) \<Longrightarrow> length r < length s"
proof (induction s arbitrary: t rule: length_induct)
  case (1 s)
  show ?case
  proof (cases s)
    case Nil
    with 1(2) show ?thesis by simp
  next
    case (Cons c cs)
    from parse_str_step[OF 1(2)[unfolded Cons]]
    show ?thesis
    proof
      assume "c = CHR 0x22 \<and> r = cs"
      then show ?thesis by (simp add: Cons)
    next
      assume "\<exists>u s'. parse_str u = Some (s', r) \<and> length u \<le> length cs"
      then obtain u s' where p: "parse_str u = Some (s', r)" and l: "length u \<le> length cs"
        by blast
      from l have "length u < length s" by (simp add: Cons)
      with 1(1) p have "length r < length u" by blast
      with l show ?thesis by (simp add: Cons)
    qed
  qed
qed

lemma int_part_nonempty_Cons: "int_part s \<noteq> [] \<Longrightarrow> s \<noteq> []"
  by (auto simp: int_part_def)

lemma parse_number_shorter:
  assumes "parse_number F s = Some (v, r)"
  shows "length r < length s"
proof -
  define s1 where "s1 = (if s \<noteq> [] \<and> hd s = CHR ''-'' then tl s else s)"
  define ip where "ip = int_part s1"
  define r1 where "r1 = drop (length ip) s1"
  define r3 where "r3 = drop (length (frac_part r1)) r1"
  have ne: "ip \<noteq> []"
    using assms by (auto simp: parse_number_def Let_def ip_def s1_def split: if_splits)
  have r: "r = drop (length (exp_part r3)) r3"
    using assms ne
    by (auto simp: parse_number_def Let_def ip_def s1_def r1_def r3_def split: if_splits)
  have pre: "length ip \<le> length s1"
    by (auto simp: ip_def int_part_def split: list.splits intro: le_trans[OF length_takeWhile_le])
  have "length r \<le> length r1" by (simp add: r r3_def)
  also have "length r1 < length s1" using ne pre by (cases ip) (simp_all add: r1_def)
  also have "length s1 \<le> length s" by (simp add: s1_def)
  finally show ?thesis .
qed

lemma pv_leaf_shorter:
  assumes "c \<noteq> CHR 0x22" "c \<noteq> CHR ''{''" "c \<noteq> CHR ''[''"
    and "parse_value F (Suc n) (c # r0) = Some (v, r)"
  shows "length r < length (c # r0)"
proof -
  let ?s = "c # r0"
  note e = assms(4)[unfolded pv_leaf[OF assms(1-3)]]
  from e show ?thesis
    by (auto split: if_splits option.splits dest: parse_number_shorter)
qed

lemma pv_leaf_fuel:
  assumes "c \<noteq> CHR 0x22" "c \<noteq> CHR ''{''" "c \<noteq> CHR ''[''"
  shows "parse_value F (Suc n) (c # r0) = parse_value F (Suc m) (c # r0)"
  by (simp only: pv_leaf[OF assms])

lemma skip_ws_length: "length (skip_ws s) \<le> length s"
  by (simp add: skip_ws_def length_dropWhile_le)

section \<open>Properties of the transport and of single steps\<close>

lemma send_rpc_request_Json:
  "script p = Json v # rest \<Longrightarrow>
   send_rpc_request m ps i p = (Ok v, p\<lparr>stdin_log := stdin_log p @ [request m ps i], script := rest\<rparr>)"
  by (simp add: send_rpc_request_def Let_def)

lemma any_in_markers:
  "any_in conflict_markers msg = Ok True \<longleftrightarrow>
     (py_in ''UNIQUE constraint failed: actions.trn'' msg = Ok True \<or>
      py_in ''already exists'' msg = Ok True \<or> py_in ''Invalid input'' msg = Ok True)"
  by (cases msg) (auto simp: conflict_markers_def)

lemma any_in_cases:
  "any_in conflict_markers msg = Ok True \<or> any_in conflict_markers msg = Ok False \<or> any_in conflict_markers msg = Raise TypeError"
  by (cases msg) (auto simp: conflict_markers_def)

lemma any_in_empty: "any_in conflict_markers (JStr []) = Ok False"
  by (simp add: conflict_markers_def)

lemma register_handle_obj:
  assumes "''result'' \<notin> fst ` set kvs"
  shows "register_handle t pr n (JObj kvs) =
     (case map_of kvs ''error'' of
        None \<Rightarrow> Raise AssertionError
      | Some (JObj e) \<Rightarrow>
          (case map_of e ''message'' of
             None \<Rightarrow> Raise AssertionError
           | Some msg \<Rightarrow>
               bind_res (any_in conflict_markers msg) (\<lambda>known.
                 if known then Ok (JStr (expected_action_trn t pr n)) else Raise AssertionError))
      | Some _ \<Rightarrow> Raise AttributeError)"
proof (cases kvs)
  case Nil
  then show ?thesis
    by (simp add: register_handle_def and_in_def or_empty_def any_in_empty)
next
  case (Cons a list)
  then have t: "truthy (JObj kvs)" by simp
  show ?thesis
    using assms t
    by (cases "map_of kvs ''error''")
       (auto simp: register_handle_def and_in_def or_empty_def any_in_empty
             split: json.splits option.splits)
qed

lemma register_handle_not_success:
  assumes "and_in r ''result'' = Ok False"
  shows "((\<exists>kvs e msg. r = JObj kvs \<and> map_of kvs ''error'' = Some (JObj e) \<and>
            map_of e ''message'' = Some msg \<and>
            (py_in ''UNIQUE constraint failed: actions.trn'' msg = Ok True \<or>
             py_in ''already exists'' msg = Ok True \<or> py_in ''Invalid input'' msg = Ok True)) \<longrightarrow>
            register_handle t pr n r = Ok (JStr (expected_action_trn t pr n))) \<and>
         (\<not> (\<exists>kvs e msg. r = JObj kvs \<and> map_of kvs ''error'' = Some (JObj e) \<and>
            map_of e ''message'' = Some msg \<and>
            (py_in ''UNIQUE constraint failed: actions.trn'' msg = Ok True \<or>
             py_in ''already exists'' msg = Ok True \<or> py_in ''Invalid input'' msg = Ok True)) \<longrightarrow>
            (\<exists>e. register_handle t pr n r = Raise e))"
proof (cases r)
  case (JObj kvs)
  with assms have nr: "''result'' \<notin> fst ` set kvs"
    by (auto simp: and_in_def split: if_splits)
  show ?thesis
    unfolding JObj register_handle_obj[OF nr] any_in_markers[symmetric]
    using any_in_cases
    by (fastforce split: option.splits json.splits)
qed (use assms in \<open>auto simp: register_handle_def and_in_def or_empty_def any_in_empty split: if_splits\<close>)

text \<open>
  C1. When the response to \<open>action.register\<close> is not a success, the workflow goes on
  exactly when the response is an object whose \<open>error\<close> is an object whose \<open>message\<close>
  contains one of the three markers; the handle it goes on with is
  \<open>trn:openact:<tenant>:action/<provider>/<name>@v1\<close>. In every other case the
  workflow ends there with an exception, and no further request is written.
\<close>

theorem register_conflict_recovery:
  assumes "send_rpc_request ''action.register''
             (Some (JObj [(''config_path'', JStr y), (''tenant'', JStr t),
                          (''provider'', JStr pr), (''name'', JStr n)])) 1 p = (Ok r, sent)"
    and "and_in r ''result'' = Ok False"
  shows "if \<exists>kvs e msg. r = JObj kvs \<and> map_of kvs ''error'' = Some (JObj e) \<and>
              map_of e ''message'' = Some msg \<and>
              (py_in ''UNIQUE constraint failed: actions.trn'' msg = Ok True \<or>
               py_in ''already exists'' msg = Ok True \<or> py_in ''Invalid input'' msg = Ok True)
         then from_register t pr y n p =
                bind (step_update y (JStr (''trn:openact:'' @ t @ '':action/'' @ pr @ ''/'' @ n @ ''@v1'')))
                  (\<lambda>_. from_auth t pr
                          (JStr (''trn:openact:'' @ t @ '':action/'' @ pr @ ''/'' @ n @ ''@v1''))) sent
         else \<exists>e. from_register t pr y n p = (Raise e, sent)"
proof -
  have reg: "step_register t pr y n p = (register_handle t pr n r, sent)"
    using assms(1) by (simp add: step_register_def bind_def lift_def)
  from register_handle_not_success[OF assms(2), of t pr n]
  show ?thesis
    by (auto simp: from_register_def bind_def reg expected_action_trn_def)
qed

theorem register_conflict_recovery_witness:
  "from_register ''test'' ''github'' ''a.yaml'' ''get-user''
     (started [Json (JObj [(''jsonrpc'', JStr ''2.0''), (''id'', JInt 1),
        (''error'', JObj [(''code'', JInt (-32000)), (''message'', JStr ''action already exists'')])])])
   = bind (step_update ''a.yaml'' (JStr ''trn:openact:test:action/github/get-user@v1''))
       (\<lambda>_. from_auth ''test'' ''github'' (JStr ''trn:openact:test:action/github/get-user@v1''))
       ((started [])\<lparr>stdin_log := [request ''action.register''
             (Some (JObj [(''config_path'', JStr ''a.yaml''), (''tenant'', JStr ''test''),
                          (''provider'', JStr ''github''), (''name'', JStr ''get-user'')])) 1]\<rparr>)"
  using register_conflict_recovery[of "''a.yaml''" "''test''" "''github''" "''get-user''"
     "started [Json (JObj [(''jsonrpc'', JStr ''2.0''), (''id'', JInt 1),
        (''error'', JObj [(''code'', JInt (-32000)), (''message'', JStr ''action already exists'')])])]"
     "JObj [(''jsonrpc'', JStr ''2.0''), (''id'', JInt 1),
        (''error'', JObj [(''code'', JInt (-32000)), (''message'', JStr ''action already exists'')])]"
     "(started [])\<lparr>stdin_log := [request ''action.register''
             (Some (JObj [(''config_path'', JStr ''a.yaml''), (''tenant'', JStr ''test''),
                          (''provider'', JStr ''github''), (''name'', JStr ''get-user'')])) 1]\<rparr>"]
  by (simp add: send_rpc_request_def started_def and_in_def sublist_code)

lemma update_accepted_iff:
  "update_accepted ru = Ok True \<longleftrightarrow>
     truthy ru \<and> (py_in ''result'' ru = Ok True \<or> py_in ''error'' ru = Ok False)"
  by (cases ru) (auto simp: update_accepted_def)

lemma update_accepted_cases:
  "update_accepted ru = Ok True \<or> update_accepted ru = Ok False \<or> update_accepted ru = Raise TypeError"
  by (cases ru) (auto simp: update_accepted_def)

text \<open>
  C3, as stated: the response to \<open>action.update\<close> is accepted if and only if it is
  present and has a \<open>result\<close> or has no \<open>error\<close>. The empty object is present and has
  no \<open>error\<close>, and the assertion fails on it.
\<close>

theorem update_empty_object_counterexample:
  "\<not> (step_update ''a.yaml'' (JStr ''h'') (started [Json (JObj [])]) =
        (Ok (), (started [])\<lparr>stdin_log := [request ''action.update''
            (Some (JObj [(''trn'', JStr ''h''), (''config_path'', JStr ''a.yaml'')])) 1]\<rparr>)
      \<longleftrightarrow> JObj [] \<noteq> JNull \<and>
          (py_in ''result'' (JObj []) = Ok True \<or> py_in ''error'' (JObj []) = Ok False))"
  by (simp add: step_update_def bind_def send_rpc_request_def started_def py_assert_def
        update_accepted_def request_def)

text \<open>
  C3, amended: the response to \<open>action.update\<close> is accepted if and only if it is truthy
  (for an object: not empty) and has a \<open>result\<close> or has no \<open>error\<close>; otherwise the
  workflow ends there with an exception. So a non-empty object with neither field is
  accepted, and an object with an \<open>error\<close> and no \<open>result\<close> is not.
\<close>

theorem update_step_accepts:
  assumes "send_rpc_request ''action.update''
             (Some (JObj [(''trn'', h), (''config_path'', JStr y)])) 1 p = (Ok ru, sent)"
  shows "(if truthy ru \<and> (py_in ''result'' ru = Ok True \<or> py_in ''error'' ru = Ok False)
          then step_update y h p = (Ok (), sent)
          else \<exists>e. step_update y h p = (Raise e, sent)) \<and>
         (\<forall>kvs. ru = JObj kvs \<longrightarrow>
            (step_update y h p = (Ok (), sent)) =
            (kvs \<noteq> [] \<and> (''result'' \<in> fst ` set kvs \<or> ''error'' \<notin> fst ` set kvs)))"
proof -
  have st: "step_update y h p = py_assert (update_accepted ru) sent"
    using assms by (simp add: step_update_def bind_def)
  have a: "if truthy ru \<and> (py_in ''result'' ru = Ok True \<or> py_in ''error'' ru = Ok False)
          then step_update y h p = (Ok (), sent)
          else \<exists>e. step_update y h p = (Raise e, sent)"
    using update_accepted_cases[of ru] update_accepted_iff[of ru]
    by (auto simp: st py_assert_def)
  have b: "(step_update y h p = (Ok (), sent)) =
            (kvs \<noteq> [] \<and> (''result'' \<in> fst ` set kvs \<or> ''error'' \<notin> fst ` set kvs))"
    if "ru = JObj kvs" for kvs
    using update_accepted_cases[of ru] update_accepted_iff[of ru] that
    by (auto simp: st py_assert_def simp del: image_iff) 
  from a b show ?thesis by blast
qed

theorem update_step_accepts_witness:
  "step_update ''a.yaml'' (JStr ''h'')
      (started [Json (JObj [(''jsonrpc'', JStr ''2.0''), (''id'', JInt 1)])]) =
    (Ok (), (started [])\<lparr>stdin_log := [request ''action.update''
            (Some (JObj [(''trn'', JStr ''h''), (''config_path'', JStr ''a.yaml'')])) 1]\<rparr>)"
  using update_step_accepts[of "JStr ''h''" "''a.yaml''"
      "started [Json (JObj [(''jsonrpc'', JStr ''2.0''), (''id'', JInt 1)])]"
      "JObj [(''jsonrpc'', JStr ''2.0''), (''id'', JInt 1)]"
      "(started [])\<lparr>stdin_log := [request ''action.update''
            (Some (JObj [(''trn'', JStr ''h''), (''config_path'', JStr ''a.yaml'')])) 1]\<rparr>"]
  by (simp add: send_rpc_request_def started_def)

text \<open>
  C10, as stated: registration follows the delete whatever the delete's response line is.
  When the line is not UTF-8, \<open>.decode()\<close> raises outside the \<open>try\<close> of
  \<open>send_rpc_request\<close>; the workflow ends with \<open>UnicodeDecodeError\<close> and
  \<open>action.register\<close> is never written.
\<close>

theorem delete_bad_utf8_counterexample:
  "workflow ''test'' ''github'' ''a.yaml'' ''get-user''
     (started [Json (JObj [(''result'', JObj [])]), BadUtf8, Json (JObj [(''result'', JObj [])])]) =
   (Raise UnicodeDecodeError,
    (started [Json (JObj [(''result'', JObj [])])])
      \<lparr>stdin_log := [request ''health'' None 1,
                     request ''action.delete''
                       (Some (JObj [(''trn'', JStr ''trn:openact:test:action/github/get-user@v1'')])) 1]\<rparr>)"
  by (simp add: workflow_def step_health_def step_delete_def bind_def send_rpc_request_def
        started_def py_assert_def and_in_def expected_action_trn_def)

text \<open>
  C10, amended: whenever the delete call returns (the response decoded to any value, an
  error response included, or was not JSON, or the stream was at its end, for which the
  call returns \<open>None\<close>), the workflow goes on with registration from the state in which
  the delete request, carrying \<open>trn:openact:<tenant>:action/<provider>/<name>@v1\<close>, has
  been written; and unless the next write fails, \<open>action.register\<close> is the next request
  written.
\<close>

theorem delete_then_register:
  assumes "send_rpc_request ''action.delete''
             (Some (JObj [(''trn'', JStr (''trn:openact:'' @ t @ '':action/'' @ pr @ ''/'' @ n @ ''@v1''))])) 1 p
           = (Ok r, sent)"
  shows "bind (step_delete t pr n) (\<lambda>_. from_register t pr y n) p = from_register t pr y n sent \<and>
         stdin_log sent = stdin_log p @
           [request ''action.delete''
              (Some (JObj [(''trn'', JStr (''trn:openact:'' @ t @ '':action/'' @ pr @ ''/'' @ n @ ''@v1''))])) 1] \<and>
         ((case script sent of [] \<Rightarrow> True | x # _ \<Rightarrow> x \<noteq> WriteFails) \<longrightarrow>
          prefix (stdin_log sent @
                    [request ''action.register''
                       (Some (JObj [(''config_path'', JStr y), (''tenant'', JStr t),
                                    (''provider'', JStr pr), (''name'', JStr n)])) 1])
                 (stdin_log (snd (from_register t pr y n sent))))"
proof (intro conjI impI)
  show "bind (step_delete t pr n) (\<lambda>_. from_register t pr y n) p = from_register t pr y n sent"
    using assms by (simp add: step_delete_def bind_def lift_def expected_action_trn_def)
  show "stdin_log sent = stdin_log p @
           [request ''action.delete''
              (Some (JObj [(''trn'', JStr (''trn:openact:'' @ t @ '':action/'' @ pr @ ''/'' @ n @ ''@v1''))])) 1]"
    using assms by (rule send_Ok_log)
next
  assume w: "case script sent of [] \<Rightarrow> True | x # _ \<Rightarrow> x \<noteq> WriteFails"
  let ?req = "request ''action.register''
                       (Some (JObj [(''config_path'', JStr y), (''tenant'', JStr t),
                                    (''provider'', JStr pr), (''name'', JStr n)])) 1"
  let ?send = "send_rpc_request ''action.register''
                       (Some (JObj [(''config_path'', JStr y), (''tenant'', JStr t),
                                    (''provider'', JStr pr), (''name'', JStr n)])) 1 sent"
  have sw: "stdin_log (snd ?send) = stdin_log sent @ [?req]"
    by (rule send_writes[OF w])
  have "stdin_log (snd (step_register t pr y n sent)) = stdin_log (snd ?send)"
    by (cases ?send) (auto simp: step_register_def bind_def lift_def split: res.splits)
  with sw have "stdin_log (snd (step_register t pr y n sent)) = stdin_log sent @ [?req]"
    by simp
  then have "prefix (stdin_log sent @ [?req]) (stdin_log (snd (step_register t pr y n sent)))"
    by simp
  then show "prefix (stdin_log sent @ [?req]) (stdin_log (snd (from_register t pr y n sent)))"
    unfolding from_register_def
    by (rule prefix_bind) (rule appends_after_register)
qed

theorem delete_then_register_witness:
  "bind (step_delete ''test'' ''github'' ''get-user'')
        (\<lambda>_. from_register ''test'' ''github'' ''a.yaml'' ''get-user'')
        (started [Json (JObj [(''error'', JObj [(''code'', JInt 1), (''message'', JStr ''no such action'')])])])
   = from_register ''test'' ''github'' ''a.yaml'' ''get-user''
       ((started [])\<lparr>stdin_log := [request ''action.delete''
          (Some (JObj [(''trn'', JStr ''trn:openact:test:action/github/get-user@v1'')])) 1]\<rparr>) \<and>
   prefix [request ''action.delete''
             (Some (JObj [(''trn'', JStr ''trn:openact:test:action/github/get-user@v1'')])) 1,
           request ''action.register''
             (Some (JObj [(''config_path'', JStr ''a.yaml''), (''tenant'', JStr ''test''),
                          (''provider'', JStr ''github''), (''name'', JStr ''get-user'')])) 1]
     (stdin_log (snd (from_register ''test'' ''github'' ''a.yaml'' ''get-user''
        ((started [])\<lparr>stdin_log := [request ''action.delete''
          (Some (JObj [(''trn'', JStr ''trn:openact:test:action/github/get-user@v1'')])) 1]\<rparr>))))"
  using delete_then_register[of "''test''" "''github''" "''get-user''"
      "started [Json (JObj [(''error'', JObj [(''code'', JInt 1), (''message'', JStr ''no such action'')])])]"
      "JObj [(''error'', JObj [(''code'', JInt 1), (''message'', JStr ''no such action'')])]"
      "(started [])\<lparr>stdin_log := [request ''action.delete''
          (Some (JObj [(''trn'', JStr ''trn:openact:test:action/github/get-user@v1'')])) 1]\<rparr>"
      "''a.yaml''"]
  by (simp add: send_rpc_request_def started_def)








text \<open>
  C6. The stop operation is to terminate the child and to kill it when it has not exited
  after the grace period. \<open>test_stdio_rpc.py\<close> calls \<open>terminate()\<close> and then \<open>wait()\<close>
  with no timeout and never calls \<open>kill()\<close>: with a child that does not exit when asked to,
  the script blocks in \<open>wait()\<close> while the child runs on. (\<open>test_stdio_rpc_e2e.py\<close> waits
  five seconds and then kills, see \<open>main_stops_once\<close>.)
\<close>

theorem test_stdio_rpc_never_kills:
  "test_stdio_rpc stubborn_host =
     Blocks (Some \<lparr>cmd = [''cargo'', ''run'', ''-q'', ''-p'', ''openact-stdio''], env = basic_env,
       stdin_log = [request ''health'' None 1, request ''status'' None 1, request ''doctor'' None 1,
                    request ''invalid_method'' None 1,
                    request ''action.register''
                      (Some (JObj [(''config_path'', JStr ''./providers/github/actions/get-user.yaml''),
                                   (''tenant'', JStr ''test''), (''provider'', JStr ''github''),
                                   (''name'', JStr ''get-user'')])) 1],
       script = [], on_terminate = NeverExits, running = True,
       terminate_calls = 1, wait_calls = 1, kill_calls = 0\<rparr>)"
  by (simp add: test_stdio_rpc_def stubborn_host_def popen_def basic_try_def basic_check_def
        bind_def send_rpc_request_basic_def send_rpc_request_def lift_def and_in_def
        basic_register_report_def stop_basic_def)

lemma main_child_env:
  assumes "main h = (r, Some p)"
  shows "env p = e2e_env (ambient h)"
proof -
  from assms obtain c where "run_child h c = (r, Some p)"
    by (auto simp: main_def split: if_splits)
  from run_child_stops[OF this] show ?thesis by simp
qed

text \<open>
  C7, as stated: the child's environment holds the three variables the script sets and
  nothing else. \<open>main\<close> starts from a copy of \<open>os.environ\<close>, so a variable of the ambient
  environment such as \<open>HOME\<close> reaches the child.
\<close>

theorem e2e_env_inherits_counterexample:
  "map_option (\<lambda>p. env p ''HOME'') (snd (main home_host)) = Some (Some ''/root'') \<and>
   ''HOME'' \<notin> {''OPENACT_DATABASE_URL'', ''OPENACT_MASTER_KEY'', ''RUST_LOG''}"
proof -
  obtain r q where m: "main home_host = (r, q)" by (cases "main home_host")
  from main_stops_once[OF m] obtain p where q: "q = Some p"
    by (auto simp: home_host_def)
  from main_child_env[of home_host r p] m q have "env p = e2e_env (ambient home_host)" by simp
  then have "env p ''HOME'' = Some ''/root''"
    by (simp add: e2e_env_def home_host_def)
  with m q show ?thesis by simp
qed

text \<open>
  C7, amended: the environment \<open>main\<close> of \<open>test_stdio_rpc_e2e.py\<close> hands to the child is
  the ambient environment with the database URL, the master key and the logging hint set
  to the script's values: those three have the script's values, and every other variable
  is present exactly when the ambient environment has it, with the same value.
\<close>

theorem child_env_is_ambient_overridden:
  assumes "main h = (r, Some p)"
  shows "env p ''OPENACT_DATABASE_URL'' =
           Some ''sqlite:/Users/sryu/projects/aionixone/openact/manifest/data/openact.db'' \<and>
         env p ''OPENACT_MASTER_KEY'' = Some ''your-32-byte-key-here-for-testing'' \<and>
         env p ''RUST_LOG'' = Some ''info'' \<and>
         (\<forall>k. k \<notin> {''OPENACT_DATABASE_URL'', ''OPENACT_MASTER_KEY'', ''RUST_LOG''} \<longrightarrow>
              env p k = ambient h k) \<and>
         dom (env p) = dom (ambient h) \<union> {''OPENACT_DATABASE_URL'', ''OPENACT_MASTER_KEY'', ''RUST_LOG''}"
  unfolding main_child_env[OF assms] e2e_env_def
  by auto

theorem child_env_is_ambient_overridden_witness:
  "\<exists>p. snd (main home_host) = Some p \<and> env p ''RUST_LOG'' = Some ''info'' \<and>
       dom (env p) = {''HOME'', ''OPENACT_DATABASE_URL'', ''OPENACT_MASTER_KEY'', ''RUST_LOG''}"
proof -
  obtain r q where m: "main home_host = (r, q)" by (cases "main home_host")
  from main_stops_once[OF m] obtain p where q: "q = Some p"
    by (auto simp: home_host_def)
  from child_env_is_ambient_overridden[of home_host r p] m q
  have "env p ''RUST_LOG'' = Some ''info''"
    and "dom (env p) = dom (ambient home_host) \<union>
           {''OPENACT_DATABASE_URL'', ''OPENACT_MASTER_KEY'', ''RUST_LOG''}"
    by simp_all
  with m q show ?thesis by (auto simp: home_host_def)
qed








lemma callback_port_reads_env:
  "callback_port int_of_str environ =
     (case environ ''OPENACT_CALLBACK_PORT'' of
        None \<Rightarrow> (case int_of_str ''8080'' of None \<Rightarrow> Raise ValueError | Some n \<Rightarrow> Ok n)
      | Some v \<Rightarrow> (case int_of_str v of None \<Rightarrow> Raise ValueError | Some n \<Rightarrow> Ok n))"
  by (simp add: callback_port_def split: option.splits)


section \<open>The round trip of a request\<close>

lemma compact_decodes:
  "decode_line F compact_health_line = Some (request ''health'' None 1)"
  by (simp add: decode_line_def compact_health_line_def dq_def py_strip_def is_space_def
        is_space_cp_def byte_def is_cont_def json_loads_def skip_ws_def is_ws_def
        starts_with_def parse_number_def int_part_def frac_part_def exp_part_def is_digit_def
        digits_val_def emit_def unescape_def dict_of_pairs_def request_def)

lemma health_encodes:
  "encode_line R (request ''health'' None 1) =
     ''{'' @ dq ''jsonrpc'' @ '': '' @ dq ''2.0'' @ '', '' @ dq ''method'' @ '': '' @ dq ''health''
     @ '', '' @ dq ''id'' @ '': 1}'' @ [CHR 0x0A]"
  by (simp add: encode_line_def request_def dumps_str_def escape_cp_def dumps_int_def dec_small
        dq_def byte_def char_of_eq_lit)

text \<open>
  C8, as stated: for every request in wire form, writing what was read gives the line
  back. The line \<open>{"jsonrpc":"2.0","method":"health","id":1}\<close> is read as the health
  request, and \<open>json.dumps\<close> writes that request with a space after each colon and
  comma, whatever the float conversions are.
\<close>

theorem compact_line_counterexample:
  "\<forall>F R. decode_line F compact_health_line = Some (request ''health'' None 1) \<and>
         encode_line R (request ''health'' None 1) \<noteq> compact_health_line"
proof (intro allI conjI)
  fix F :: "string \<Rightarrow> pyfloat" and R :: "pyfloat \<Rightarrow> string"
  show "decode_line F compact_health_line = Some (request ''health'' None 1)"
    by (rule compact_decodes)
  show "encode_line R (request ''health'' None 1) \<noteq> compact_health_line"
    by (simp add: health_encodes compact_health_line_def dq_def)
qed

lemma plain_request:
  assumes "ascii method" and "case params of None \<Rightarrow> True | Some ps \<Rightarrow> plain ps"
  shows "plain (request method params i)"
  using assms by (cases params) (simp_all add: request_def ascii_def byte_def)

text \<open>
  C8, amended: for every request \<open>send_rpc_request\<close> builds whose method is ASCII and
  whose parameters hold no float, only ASCII strings and no repeated key, reading the line
  written for it gives the request back; so writing what was read gives the line back for
  every line that the harness itself writes for such a request.
\<close>

theorem request_round_trip:
  assumes "ascii method" and "case params of None \<Rightarrow> True | Some ps \<Rightarrow> plain ps"
  shows "decode_line F (encode_line R (request method params i)) = Some (request method params i) \<and>
         map_option (encode_line R) (decode_line F (encode_line R (request method params i)))
           = Some (encode_line R (request method params i))"
  using decode_encode_plain[OF plain_request[OF assms], of F R i] by simp

theorem request_round_trip_witness:
  "\<forall>F R. decode_line F (encode_line R (request ''run''
            (Some (JObj [(''tenant'', JStr ''test''), (''limit'', JInt 10)])) 1))
         = Some (request ''run'' (Some (JObj [(''tenant'', JStr ''test''), (''limit'', JInt 10)])) 1)"
proof (intro allI)
  fix F R
  have a: "ascii ''run''" by (simp add: ascii_def byte_def)
  have p: "case Some (JObj [(''tenant'', JStr ''test''), (''limit'', JInt 10)]) of
             None \<Rightarrow> True | Some ps \<Rightarrow> plain ps"
    by (simp add: ascii_def byte_def)
  from request_round_trip[OF a p, of F R 1]
  show "decode_line F (encode_line R (request ''run''
            (Some (JObj [(''tenant'', JStr ''test''), (''limit'', JInt 10)])) 1))
         = Some (request ''run'' (Some (JObj [(''tenant'', JStr ''test''), (''limit'', JInt 10)])) 1)"
    by simp
qed

end
